theory Spec2Isabelle
  imports Main
begin

section \<open>Credential identity (api_client_manager.py, ApiCredentials)\<close>

text \<open>
  Python strings are modelled as \<open>string\<close>. The dataclass \<open>ApiCredentials\<close> has three
  string fields; its property \<open>key_id\<close> is the f-string \<^verbatim>\<open>f"{self.host}:{self.login}"\<close>.
\<close>

record ApiCredentials =
  host :: string
  login :: string
  password :: string

definition key_id :: "ApiCredentials \<Rightarrow> string" where
  "key_id c = host c @ '':'' @ login c"

section \<open>List reads: choice of the request encoding (api_client_manager.py, lines 459-920)\<close>

text \<open>
  Every list read ends in one call of the generated client, made through
  \<open>execute_with_retry\<close>. The call is modelled by a value naming the generated method
  and carrying its keyword arguments; \<open>None\<close> is Python's \<open>None\<close>. The type
  \<open>'pt\<close> stands for the generated enumeration \<open>ProductType\<close>, which is not part of
  the repository; its truth value (used by \<^verbatim>\<open>[product_type] if product_type else None\<close>)
  is the parameter \<open>truthy\<close> of \<open>get_products_list\<close>.
\<close>

datatype 'pt request =
    V2_entities_products_list_get
      (include_deleted: "bool option") (ids: "string list option")
      (nums: "string list option") (types: "'pt list option")
      (category_ids: "string list option") (parent_ids: "string list option")
  | V2_entities_products_list_post
      (include_deleted: "bool option") (ids: "string list option")
      (nums: "string list option") (types: "'pt list option")
      (category_ids: "string list option") (parent_ids: "string list option")
  | V2_entities_products_group_list_get
      (include_deleted: "bool option") (ids: "string list option")
      (parent_ids: "string list option") (revision_from: "int option")
      (nums: "string list option") (codes: "string list option")
  | V2_entities_products_group_list_post
      (include_deleted: "bool option") (ids: "string list option")
      (parent_ids: "string list option") (revision_from: "int option")
      (nums: "string list option") (codes: "string list option")
  | V2_entities_products_category_list_get
      (include_deleted: "bool option") (ids: "string list option")
      (revision_from: "int option")
  | V2_entities_products_category_list_post
      (include_deleted: "bool option") (ids: "string list option")
      (revision_from: "int option")

text \<open>\<^verbatim>\<open>lst is not None and len(lst) > 1\<close>\<close>

definition more_than_one :: "'a list option \<Rightarrow> bool" where
  "more_than_one lst = (case lst of None \<Rightarrow> False | Some xs \<Rightarrow> length xs > 1)"

text \<open>\<^verbatim>\<open>xs[0] if xs and len(xs) == 1 else None\<close>: a list is true when it is not empty.\<close>

definition only_element :: "'a list option \<Rightarrow> 'a option" where
  "only_element lst =
     (case lst of
        None \<Rightarrow> None
      | Some xs \<Rightarrow> if xs \<noteq> [] \<and> length xs = 1 then Some (xs ! 0) else None)"

text \<open>\<^verbatim>\<open>lst is not None and len(lst) == 0\<close>\<close>

definition is_empty_list :: "'a list option \<Rightarrow> bool" where
  "is_empty_list lst = (case lst of None \<Rightarrow> False | Some xs \<Rightarrow> length xs = 0)"

text \<open>\<^verbatim>\<open>[x] if x else None\<close>, for the truth value \<open>t\<close> of the element type.\<close>

definition list_if :: "('a \<Rightarrow> bool) \<Rightarrow> 'a option \<Rightarrow> 'a list option" where
  "list_if t x = (case x of None \<Rightarrow> None | Some v \<Rightarrow> if t v then Some [v] else None)"

text \<open>A Python string is true when it is not empty.\<close>

definition str_truthy :: "string \<Rightarrow> bool" where
  "str_truthy s = (s \<noteq> [])"

definition get_products_via_get ::
  "bool option \<Rightarrow> string list option \<Rightarrow> string list option \<Rightarrow> 'pt list option \<Rightarrow>
   string list option \<Rightarrow> string list option \<Rightarrow> 'pt request" where
  "get_products_via_get incl is ns ts cs ps = V2_entities_products_list_get incl is ns ts cs ps"

definition get_products_via_post ::
  "('pt \<Rightarrow> bool) \<Rightarrow> bool option \<Rightarrow> string option \<Rightarrow> string option \<Rightarrow> 'pt option \<Rightarrow>
   string option \<Rightarrow> string option \<Rightarrow> bool \<Rightarrow> 'pt request" where
  "get_products_via_post truthy incl i n product_type category_id parent_id parent_ids_empty =
     V2_entities_products_list_post incl
       (list_if str_truthy i)
       (list_if str_truthy n)
       (list_if truthy product_type)
       (list_if str_truthy category_id)
       (if parent_ids_empty then Some [] else list_if str_truthy parent_id)"

definition get_products_list ::
  "('pt \<Rightarrow> bool) \<Rightarrow> bool option \<Rightarrow> string list option \<Rightarrow> string list option \<Rightarrow>
   'pt list option \<Rightarrow> string list option \<Rightarrow> string list option \<Rightarrow> 'pt request" where
  "get_products_list truthy incl is ns ts cs ps =
     (let use_get = (list_ex more_than_one [is, ns, cs, ps] \<or> more_than_one ts)
      in if use_get then get_products_via_get incl is ns ts cs ps
         else get_products_via_post truthy incl
                (only_element is) (only_element ns) (only_element ts)
                (only_element cs) (only_element ps) (is_empty_list ps))"

definition get_product_groups_via_get ::
  "bool option \<Rightarrow> string list option \<Rightarrow> string list option \<Rightarrow> int option \<Rightarrow>
   string list option \<Rightarrow> string list option \<Rightarrow> 'pt request" where
  "get_product_groups_via_get incl is ps rfrom ns cds =
     V2_entities_products_group_list_get incl is ps rfrom ns cds"

definition get_product_groups_via_post ::
  "bool option \<Rightarrow> string option \<Rightarrow> string option \<Rightarrow> bool \<Rightarrow> int option \<Rightarrow>
   string option \<Rightarrow> string option \<Rightarrow> 'pt request" where
  "get_product_groups_via_post incl i parent_id parent_ids_empty rfrom n code =
     V2_entities_products_group_list_post incl
       (list_if str_truthy i)
       (if parent_ids_empty then Some [] else list_if str_truthy parent_id)
       rfrom
       (list_if str_truthy n)
       (list_if str_truthy code)"

definition get_product_groups_list ::
  "bool option \<Rightarrow> string list option \<Rightarrow> string list option \<Rightarrow> int option \<Rightarrow>
   string list option \<Rightarrow> string list option \<Rightarrow> 'pt request" where
  "get_product_groups_list incl is ps rfrom ns cds =
     (let use_get = list_ex more_than_one [is, ps, ns, cds]
      in if use_get then get_product_groups_via_get incl is ps rfrom ns cds
         else get_product_groups_via_post incl
                (only_element is) (only_element ps) (is_empty_list ps) rfrom
                (only_element ns) (only_element cds))"

definition get_user_categories_via_get ::
  "bool option \<Rightarrow> string list option \<Rightarrow> int option \<Rightarrow> 'pt request" where
  "get_user_categories_via_get incl is rfrom = V2_entities_products_category_list_get incl is rfrom"

definition get_user_categories_via_post ::
  "bool option \<Rightarrow> string option \<Rightarrow> int option \<Rightarrow> 'pt request" where
  "get_user_categories_via_post incl i rfrom =
     V2_entities_products_category_list_post incl (list_if str_truthy i) rfrom"

definition get_user_categories_list ::
  "bool option \<Rightarrow> string list option \<Rightarrow> int option \<Rightarrow> 'pt request" where
  "get_user_categories_list incl is rfrom =
     (let use_get = more_than_one is
      in if use_get then get_user_categories_via_get incl is rfrom
         else get_user_categories_via_post incl (only_element is) rfrom)"

section \<open>Exceptions (exceptions.py and the generated client)\<close>

text \<open>
  An exception raised by the generated client or by a wrapped operation is known to the
  code through two observations only: whether it is an instance of
  \<open>UnauthorizedException\<close>, and the value of its \<open>status\<close> attribute, if it has one
  (\<^verbatim>\<open>getattr(exc, "status", None)\<close>). \<open>IikoServerAuthException\<close> is the repository's
  own class; it has no \<open>status\<close> attribute and keeps the \<open>original_error\<close>. Its two
  messages in \<open>_fetch_token\<close> (a 401 on the authentication request; any other failure)
  are the two values of \<open>auth_failure\<close>. Only subclasses of \<open>Exception\<close> are
  modelled: they are what the handlers of the source catch.
\<close>

datatype auth_failure = Invalid_credentials | Fetch_failed

datatype exn =
    Exception bool "int option" string
  | IikoServerAuthException auth_failure exn

fun is_UnauthorizedException :: "exn \<Rightarrow> bool" where
  "is_UnauthorizedException (Exception u st txt) = u"
| "is_UnauthorizedException (IikoServerAuthException k orig) = False"

fun status_attr :: "exn \<Rightarrow> int option" where
  "status_attr (Exception u st txt) = st"
| "status_attr (IikoServerAuthException k orig) = None"

text \<open>
  \<^verbatim>\<open>is_401 = isinstance(error, UnauthorizedException) or error_status == 401\<close>
  (token_manager.py, line 181); \<open>execute_with_retry\<close> classifies with the same two tests.
\<close>

definition is_401 :: "exn \<Rightarrow> bool" where
  "is_401 error = (is_UnauthorizedException error \<or> status_attr error = Some 401)"

section \<open>The token manager (token_manager.py)\<close>

text \<open>
  One \<open>TokenManager\<close> object. \<open>api_key\<close> is \<open>self._api_client.configuration.api_key\<close>,
  the dictionary of the transport handle that only the manager writes; \<open>tm_api_client\<close>
  is the identity of that handle. \<open>lock\<close> is \<open>self._lock.locked()\<close> and
  \<open>refresh_event\<close> is \<open>self._refresh_event.is_set()\<close>. An \<open>asyncio.Event\<close> releases,
  at \<open>set()\<close>, every task that waits at that moment, also if the event is cleared again
  before the task runs; \<open>refresh_event_sets\<close> counts the calls of \<open>set()\<close> that found
  the event cleared, so that a waiter that remembers the count at which it began to
  wait is released exactly when the count has grown.
\<close>

record TokenManager =
  tm_api_client :: nat
  api_key :: "(string \<times> string) list"
  tm_login :: string
  tm_password_hash :: string
  tm_key_id :: string
  token :: "string option"
  token_version :: nat
  lock :: bool
  refresh_event :: bool
  refresh_event_sets :: nat

text \<open>
  What the code does to the outside: calls of the authentication and logout endpoints,
  invocations of a wrapped operation, closing a transport, and the debug lines that
  carry the version snapshot.
\<close>

datatype event =
    Auth_get string string
  | Logout_get string
  | Log_401 nat
  | Log_waiting
  | Log_already_refreshed nat nat
  | Api_call
  | Api_client_close nat

datatype val = NoneV | BoolV bool

text \<open>The answer of a remote call: an exception, or the returned string.\<close>

type_synonym reply = "exn + string"

text \<open>
  \<open>hash_password\<close>: the SHA-1 digest in hexadecimal. \<open>hashlib\<close> is not part of the
  repository; the digest function is the parameter \<open>sha1_hexdigest\<close>.
\<close>

definition hash_password :: "(string \<Rightarrow> string) \<Rightarrow> string \<Rightarrow> string" where
  "hash_password sha1_hexdigest pw = sha1_hexdigest pw"

text \<open>
  \<open>TokenManager.__init__\<close>. The constructor does not write the key of the transport: the
  new manager sees the key that the \<open>ApiClient\<close> it is given carries at that moment,
  \<open>client_key\<close>.
\<close>

definition TokenManager_init ::
  "(string \<Rightarrow> string) \<Rightarrow> nat \<Rightarrow> (string \<times> string) list \<Rightarrow> string \<Rightarrow> string \<Rightarrow> string \<Rightarrow>
   TokenManager" where
  "TokenManager_init sha1_hexdigest client client_key lg pw kid =
     \<lparr>tm_api_client = client, api_key = client_key, tm_login = lg,
      tm_password_hash = hash_password sha1_hexdigest pw, tm_key_id = kid,
      token = None, token_version = 0, lock = False,
      refresh_event = True, refresh_event_sets = 0\<rparr>"

definition event_clear :: "TokenManager \<Rightarrow> TokenManager" where
  "event_clear tm = tm\<lparr>refresh_event := False\<rparr>"

definition event_set :: "TokenManager \<Rightarrow> TokenManager" where
  "event_set tm =
     (if refresh_event tm then tm
      else tm\<lparr>refresh_event := True, refresh_event_sets := Suc (refresh_event_sets tm)\<rparr>)"

text \<open>
  \<open>_fetch_token\<close> up to its await: the transport's key is cleared and \<open>auth_get\<close> is
  called with the login and the password hash.
\<close>

definition fetch_token_begin :: "TokenManager \<Rightarrow> TokenManager \<times> event list" where
  "fetch_token_begin tm =
     (tm\<lparr>api_key := []\<rparr>, [Auth_get (tm_login tm) (tm_password_hash tm)])"

text \<open>\<open>_fetch_token\<close> after the await: the token, or the exception it raises.\<close>

definition fetch_token_end :: "reply \<Rightarrow> exn + string" where
  "fetch_token_end r =
     (case r of
        Inr tok \<Rightarrow> Inr tok
      | Inl exc \<Rightarrow>
          if is_UnauthorizedException exc
          then Inl (IikoServerAuthException Invalid_credentials exc)
          else Inl (IikoServerAuthException Fetch_failed exc))"

definition set_token :: "string \<Rightarrow> TokenManager \<Rightarrow> TokenManager" where
  "set_token tok tm = tm\<lparr>token := Some tok, api_key := [(''iikoCookieAuth'', tok)]\<rparr>"

text \<open>
  The coroutines \<open>ensure_token\<close>, \<open>refresh_token_if_401\<close> and \<open>logout\<close>, cut at their
  awaits. A task is at one of these points; local variables that are live there
  (\<open>version_before\<close>) are part of the point. \<open>Refresh_wait\<close> also keeps the value of
  \<open>refresh_event_sets\<close> at which the wait began.

  Between two awaits the code of a task runs without interruption (cooperative
  scheduling). Taking the lock is always a step of its own here, although an
  uncontended \<open>asyncio.Lock\<close> is taken without suspending: the model has every
  interleaving of the program and some more, and any waiting task may take a free lock.
\<close>

datatype pc =
    Ensure_token
  | Ensure_token_lock
  | Ensure_token_fetch
  | Refresh_token_if_401 exn
  | Refresh_wait nat nat
  | Refresh_lock nat
  | Refresh_fetch
  | Logout
  | Logout_wait
  | Ret "exn + val"

text \<open>
  One step of a task: from its point to the next, on the manager. The reply is the
  answer of the remote call the task awaits, and is read only at \<open>Ensure_token_fetch\<close>,
  \<open>Refresh_fetch\<close> and \<open>Logout_wait\<close>. \<open>None\<close>: the task cannot run now (the lock is
  held, the event has not been set) or has finished.
\<close>

fun pc_step :: "reply \<Rightarrow> pc \<Rightarrow> TokenManager \<Rightarrow> (pc \<times> TokenManager \<times> event list) option" where
  "pc_step r Ensure_token tm =
     (if token tm \<noteq> None then Some (Ret (Inr NoneV), tm, [])
      else Some (Ensure_token_lock, tm, []))"
| "pc_step r Ensure_token_lock tm =
     (if lock tm then None
      else if token tm \<noteq> None then Some (Ret (Inr NoneV), tm, [])
      else (let (tm1, evs) = fetch_token_begin (event_clear tm)
            in Some (Ensure_token_fetch, tm1\<lparr>lock := True\<rparr>, evs)))"
| "pc_step r Ensure_token_fetch tm =
     (case fetch_token_end r of
        Inr tok \<Rightarrow>
          Some (Ret (Inr NoneV),
                (event_set ((set_token tok tm)\<lparr>token_version := token_version tm + 1\<rparr>))
                  \<lparr>lock := False\<rparr>, [])
      | Inl e \<Rightarrow> Some (Ret (Inl e), (event_set tm)\<lparr>lock := False\<rparr>, []))"
| "pc_step r (Refresh_token_if_401 error) tm =
     (if \<not> is_401 error then Some (Ret (Inr (BoolV False)), tm, [])
      else (let version_before = token_version tm
            in if \<not> refresh_event tm
               then Some (Refresh_wait version_before (refresh_event_sets tm), tm,
                          [Log_401 version_before, Log_waiting])
               else Some (Refresh_lock version_before, tm, [Log_401 version_before])))"
| "pc_step r (Refresh_wait version_before k) tm =
     (if k < refresh_event_sets tm then Some (Ret (Inr (BoolV True)), tm, []) else None)"
| "pc_step r (Refresh_lock version_before) tm =
     (if lock tm then None
      else if token_version tm \<noteq> version_before
      then Some (Ret (Inr (BoolV True)), tm,
                 [Log_already_refreshed version_before (token_version tm)])
      else (let (tm1, evs) = fetch_token_begin (event_clear tm)
            in Some (Refresh_fetch, tm1\<lparr>lock := True\<rparr>, evs)))"
| "pc_step r Refresh_fetch tm =
     (case fetch_token_end r of
        Inr tok \<Rightarrow>
          Some (Ret (Inr (BoolV True)),
                (event_set ((set_token tok tm)\<lparr>token_version := token_version tm + 1\<rparr>))
                  \<lparr>lock := False\<rparr>, [])
      | Inl e \<Rightarrow>
          Some (Ret (Inl e),
                (event_set (tm\<lparr>token := None, api_key := []\<rparr>))\<lparr>lock := False\<rparr>, []))"
| "pc_step r Logout tm =
     (case token tm of
        None \<Rightarrow> Some (Ret (Inr NoneV), tm, [])
      | Some tok \<Rightarrow> Some (Logout_wait, tm, [Logout_get tok]))"
| "pc_step r Logout_wait tm =
     Some (Ret (Inr NoneV), tm\<lparr>token := None, api_key := []\<rparr>, [])"
| "pc_step r (Ret v) tm = None"

text \<open>
  A coroutine awaited with no other task running: its steps, one after the other,
  until it returns or raises. Three steps are the longest path; \<open>None\<close> means that the
  coroutine waits for a lock or an event that nobody else is there to release.
\<close>

fun run_alone ::
  "nat \<Rightarrow> reply \<Rightarrow> pc \<Rightarrow> TokenManager \<Rightarrow> event list \<Rightarrow>
   ((exn + val) \<times> TokenManager \<times> event list) option" where
  "run_alone n r (Ret v) tm evs = Some (v, tm, evs)"
| "run_alone 0 r p tm evs = None"
| "run_alone (Suc n) r p tm evs =
     (case pc_step r p tm of
        None \<Rightarrow> None
      | Some (p', tm', es) \<Rightarrow> run_alone n r p' tm' (evs @ es))"

definition await_alone ::
  "reply \<Rightarrow> pc \<Rightarrow> TokenManager \<Rightarrow> ((exn + val) \<times> TokenManager \<times> event list) option" where
  "await_alone r p tm = run_alone 3 r p tm []"

subsection \<open>Tasks running concurrently on one manager\<close>

text \<open>
  The configuration: the manager, the point of every task, and what has been done to
  the outside so far, each event with the number of the task that did it. A schedule
  is a list of pairs: which task runs next, and the reply it receives if it awaits one.
\<close>

record config =
  mgr :: TokenManager
  tasks :: "pc list"
  trace :: "(nat \<times> event) list"

definition fire :: "nat \<times> reply \<Rightarrow> config \<Rightarrow> config option" where
  "fire l c =
     (case l of (i, r) \<Rightarrow>
        if i < length (tasks c)
        then (case pc_step r (tasks c ! i) (mgr c) of
                None \<Rightarrow> None
              | Some (p', tm', evs) \<Rightarrow>
                  Some (c\<lparr>mgr := tm', tasks := (tasks c)[i := p'],
                          trace := trace c @ map (Pair i) evs\<rparr>))
        else None)"

fun exec :: "(nat \<times> reply) list \<Rightarrow> config \<Rightarrow> config option" where
  "exec [] c = Some c"
| "exec (l # ls) c = (case fire l c of None \<Rightarrow> None | Some c' \<Rightarrow> exec ls c')"

text \<open>Observations on a configuration, used to state the properties.\<close>

fun is_Auth_get :: "event \<Rightarrow> bool" where
  "is_Auth_get (Auth_get l p) = True"
| "is_Auth_get e = False"

definition auth_calls :: "(nat \<times> event) list \<Rightarrow> nat" where
  "auth_calls tr = length (filter (\<lambda>x. is_Auth_get (snd x)) tr)"

fun fetching :: "pc \<Rightarrow> bool" where
  "fetching Ensure_token_fetch = True"
| "fetching Refresh_fetch = True"
| "fetching p = False"

fun finished :: "pc \<Rightarrow> bool" where
  "finished (Ret v) = True"
| "finished p = False"

fun is_call :: "pc \<Rightarrow> bool" where
  "is_call Ensure_token = True"
| "is_call (Refresh_token_if_401 e) = True"
| "is_call Logout = True"
| "is_call p = False"

text \<open>
  A starting configuration: nobody holds the lock, the event is set (as \<open>__init__\<close>
  leaves them and as every completed call leaves them), and every task is a call that
  has not begun.
\<close>

definition initial :: "config \<Rightarrow> bool" where
  "initial c = (\<not> lock (mgr c) \<and> refresh_event (mgr c) \<and> list_all is_call (tasks c))"

subsection \<open>Invariant and measure of the concurrent runs\<close>

text \<open>
  The lock is held exactly by a task that awaits the authentication endpoint, and by one
  only; the event is cleared only while the lock is held; a task waiting for the event
  either has been released already or waits for a fetch that is still in flight.
\<close>

definition lock_inv :: "config \<Rightarrow> bool" where
  "lock_inv c =
     ((lock (mgr c) \<longleftrightarrow> (\<exists>i < length (tasks c). fetching (tasks c ! i))) \<and>
      (\<forall>i j. i < length (tasks c) \<and> j < length (tasks c) \<and>
             fetching (tasks c ! i) \<and> fetching (tasks c ! j) \<longrightarrow> i = j) \<and>
      (\<not> refresh_event (mgr c) \<longrightarrow> lock (mgr c)) \<and>
      (\<forall>i vb k. i < length (tasks c) \<and> tasks c ! i = Refresh_wait vb k \<longrightarrow>
             k < refresh_event_sets (mgr c) \<or>
             (k = refresh_event_sets (mgr c) \<and> \<not> refresh_event (mgr c))))"

text \<open>An upper bound of the steps a task can still take.\<close>

fun rank :: "pc \<Rightarrow> nat" where
  "rank Ensure_token = 3"
| "rank Ensure_token_lock = 2"
| "rank Ensure_token_fetch = 1"
| "rank (Refresh_token_if_401 e) = 3"
| "rank (Refresh_wait vb k) = 1"
| "rank (Refresh_lock vb) = 2"
| "rank Refresh_fetch = 1"
| "rank Logout = 2"
| "rank Logout_wait = 1"
| "rank (Ret v) = 0"

text \<open>
  The runs in which every task is a call of \<open>refresh_token_if_401\<close> with a 401 error,
  every snapshot taken so far is \<open>v0\<close> and every authentication request so far was
  answered with a token: a task is at a point of \<open>refresh_token_if_401\<close> and its
  snapshot is in the trace; a call of the authentication endpoint is either in flight
  (the lock is held, the version is still \<open>v0\<close>) or has raised the version to
  \<open>v0 + 1\<close>; and once a task waits for the event or has returned, a call has been made.
\<close>

fun refresh_point :: "(nat \<times> event) list \<Rightarrow> nat \<Rightarrow> pc \<Rightarrow> bool" where
  "refresh_point tr i (Refresh_token_if_401 e) = is_401 e"
| "refresh_point tr i (Refresh_wait vb k) = ((i, Log_401 vb) \<in> set tr)"
| "refresh_point tr i (Refresh_lock vb) = ((i, Log_401 vb) \<in> set tr)"
| "refresh_point tr i Refresh_fetch = True"
| "refresh_point tr i (Ret v) = (v = Inr (BoolV True))"
| "refresh_point tr i p = False"

fun waiting_or_finished :: "pc \<Rightarrow> bool" where
  "waiting_or_finished (Refresh_wait vb k) = True"
| "waiting_or_finished (Ret v) = True"
| "waiting_or_finished p = False"

definition coalesced :: "nat \<Rightarrow> config \<Rightarrow> bool" where
  "coalesced v0 c =
     ((\<forall>i < length (tasks c). refresh_point (trace c) i (tasks c ! i)) \<and>
      auth_calls (trace c) = (token_version (mgr c) - v0) + (if lock (mgr c) then 1 else 0) \<and>
      v0 \<le> token_version (mgr c) \<and> token_version (mgr c) \<le> v0 + 1 \<and>
      (lock (mgr c) \<longrightarrow> token_version (mgr c) = v0) \<and>
      ((\<exists>i < length (tasks c). waiting_or_finished (tasks c ! i)) \<longrightarrow> 1 \<le> auth_calls (trace c)))"

section \<open>Registries and the facade (api_client_manager.py; token_manager.py, class methods)\<close>

text \<open>
  Objects live in a store and are referred to by their address, the index in the list;
  a new object is appended, nothing is ever removed (an object dropped from a registry
  may still be referenced). The two class attributes \<open>_instances\<close> are dictionaries in
  insertion order: association lists from \<open>key_id\<close> to address. \<open>tm_global_lock\<close> and
  \<open>fc_lock\<close> say whether the class-level lock object exists (is not \<open>None\<close>).
  \<open>api_clients\<close> counts the \<open>ApiClient\<close> objects constructed so far; the count is the
  identity of the next one. \<open>history\<close> is what has been done to the outside.

  A facade keeps its credentials, its own \<open>ApiClient\<close> and the reference to its token
  manager (\<open>None\<close> until first use); its two caches of generated API objects play no
  part in what follows and are left out.

  This part of the model is sequential: one caller, every awaited coroutine runs to
  its end before the caller goes on.
\<close>

record Facade =
  credentials :: ApiCredentials
  fc_api_client :: nat
  fc_token_manager :: "nat option"

record world =
  token_managers :: "TokenManager list"
  tm_instances :: "(string \<times> nat) list"
  tm_global_lock :: bool
  facades :: "Facade list"
  fc_instances :: "(string \<times> nat) list"
  fc_lock :: bool
  api_clients :: nat
  history :: "event list"

text \<open>
  \<open>TokenManager.get_instance\<close>. The argument \<open>api_client\<close> is given by the identity of
  the client and the key it carries.
\<close>

definition TokenManager_get_instance ::
  "(string \<Rightarrow> string) \<Rightarrow> nat \<Rightarrow> (string \<times> string) list \<Rightarrow> string \<Rightarrow> string \<Rightarrow> string \<Rightarrow>
   world \<Rightarrow> nat \<times> world" where
  "TokenManager_get_instance sha1_hexdigest client client_key lg pw kid w =
     (let w1 = w\<lparr>tm_global_lock := True\<rparr>
      in case map_of (tm_instances w1) kid of
           Some a \<Rightarrow> (a, w1)
         | None \<Rightarrow>
             (let a = length (token_managers w1)
              in (a, w1\<lparr>token_managers :=
                          token_managers w1 @ [TokenManager_init sha1_hexdigest client client_key lg pw kid],
                        tm_instances := tm_instances w1 @ [(kid, a)]\<rparr>)))"

text \<open>\<open>IikoServerApiClientManager.__init__\<close>: a new \<open>ApiClient\<close>, no token manager yet.\<close>

definition Facade_init :: "ApiCredentials \<Rightarrow> world \<Rightarrow> Facade \<times> world" where
  "Facade_init creds w =
     (\<lparr>credentials = creds, fc_api_client = api_clients w, fc_token_manager = None\<rparr>,
      w\<lparr>api_clients := Suc (api_clients w)\<rparr>)"

text \<open>\<open>IikoServerApiClientManager.get_instance\<close>\<close>

definition get_instance :: "ApiCredentials \<Rightarrow> world \<Rightarrow> nat \<times> world" where
  "get_instance creds w =
     (let w1 = w\<lparr>fc_lock := True\<rparr>;
          key = key_id creds
      in case map_of (fc_instances w1) key of
           Some f \<Rightarrow> (f, w1)
         | None \<Rightarrow>
             (let (self, w2) = Facade_init creds w1;
                  f = length (facades w2)
              in (f, w2\<lparr>facades := facades w2 @ [self],
                        fc_instances := fc_instances w2 @ [(key, f)]\<rparr>)))"

text \<open>
  Awaiting a coroutine of the token manager at address \<open>a\<close>: it runs alone, the manager
  in the store is replaced by the one it leaves, its events join the history.
  \<open>None\<close>: the coroutine never returns.
\<close>

definition await_in_world ::
  "reply \<Rightarrow> pc \<Rightarrow> nat \<Rightarrow> world \<Rightarrow> ((exn + val) \<times> world) option" where
  "await_in_world r p a w =
     (case await_alone r p (token_managers w ! a) of
        None \<Rightarrow> None
      | Some (res, tm', evs) \<Rightarrow>
          Some (res, w\<lparr>token_managers := (token_managers w)[a := tm'],
                       history := history w @ evs\<rparr>))"

text \<open>
  \<open>TokenManager.close_all\<close>: the loop over \<open>cls._instances.values()\<close>, then the reset.
  \<open>replies\<close> gives, for each key, the answer of the logout endpoint to that manager.
\<close>

fun logout_each ::
  "(string \<Rightarrow> reply) \<Rightarrow> (string \<times> nat) list \<Rightarrow> world \<Rightarrow> ((exn + unit) \<times> world) option" where
  "logout_each replies [] w = Some (Inr (), w)"
| "logout_each replies ((k, a) # rest) w =
     (case await_in_world (replies k) Logout a w of
        None \<Rightarrow> None
      | Some (Inl e, w') \<Rightarrow> Some (Inl e, w')
      | Some (Inr v, w') \<Rightarrow> logout_each replies rest w')"

definition TokenManager_close_all ::
  "(string \<Rightarrow> reply) \<Rightarrow> world \<Rightarrow> ((exn + unit) \<times> world) option" where
  "TokenManager_close_all replies w =
     (case logout_each replies (tm_instances w) w of
        None \<Rightarrow> None
      | Some (Inl e, w') \<Rightarrow> Some (Inl e, w')
      | Some (Inr u, w') \<Rightarrow> Some (Inr (), w'\<lparr>tm_instances := [], tm_global_lock := False\<rparr>))"

text \<open>
  \<open>IikoServerApiClientManager.close_all\<close>. \<open>ApiClient.close\<close> belongs to the generated
  client; \<open>closes\<close> says, for each client, whether its \<open>close()\<close> raises.
\<close>

fun close_each ::
  "(nat \<Rightarrow> exn option) \<Rightarrow> (string \<times> nat) list \<Rightarrow> world \<Rightarrow> (exn + unit) \<times> world" where
  "close_each closes [] w = (Inr (), w)"
| "close_each closes ((k, f) # rest) w =
     (let client = fc_api_client (facades w ! f);
          w' = w\<lparr>history := history w @ [Api_client_close client]\<rparr>
      in case closes client of
           Some e \<Rightarrow> (Inl e, w')
         | None \<Rightarrow> close_each closes rest w')"

definition close_all ::
  "(string \<Rightarrow> reply) \<Rightarrow> (nat \<Rightarrow> exn option) \<Rightarrow> world \<Rightarrow> ((exn + unit) \<times> world) option" where
  "close_all replies closes w =
     (case TokenManager_close_all replies w of
        None \<Rightarrow> None
      | Some (Inl e, w1) \<Rightarrow> Some (Inl e, w1)
      | Some (Inr u, w1) \<Rightarrow>
          (case close_each closes (fc_instances w1) w1 of
             (Inl e, w2) \<Rightarrow> Some (Inl e, w2)
           | (Inr u', w2) \<Rightarrow> Some (Inr (), w2\<lparr>fc_instances := [], fc_lock := False\<rparr>)))"





fun is_Logout_get :: "event \<Rightarrow> bool" where
  "is_Logout_get (Logout_get k) = True"
| "is_Logout_get e = False"


section \<open>Concrete inputs\<close>

text \<open>
  A manager as it is after one successful fetch (version 1, nobody fetching), a 401
  error of a wrapped operation, an error of the network, and two tasks that each hold
  a 401 error and are about to call \<open>refresh_token_if_401\<close>.
\<close>

definition example_manager :: TokenManager where
  "example_manager =
     \<lparr>tm_api_client = 0, api_key = [(''iikoCookieAuth'', ''t1'')], tm_login = ''user'',
      tm_password_hash = ''a94a8fe5'', tm_key_id = ''example.iiko.it:user'',
      token = Some ''t1'', token_version = 1, lock = False,
      refresh_event = True, refresh_event_sets = 1\<rparr>"

definition error_401 :: exn where
  "error_401 = Exception True (Some 401) ''Unauthorized''"

definition network_error :: exn where
  "network_error = Exception False None ''Connection reset''"

definition two_refreshers :: config where
  "two_refreshers =
     \<lparr>mgr = example_manager,
      tasks = [Refresh_token_if_401 error_401, Refresh_token_if_401 error_401],
      trace = []\<rparr>"

text \<open>
  A world after first use: one facade for \<open>example.iiko.it\<close> and \<open>user\<close>, bound to its
  token manager, which holds the token \<open>t1\<close>.
\<close>

definition example_credentials :: ApiCredentials where
  "example_credentials = \<lparr>host = ''example.iiko.it'', login = ''user'', password = ''secret''\<rparr>"

definition example_world :: world where
  "example_world =
     \<lparr>token_managers = [example_manager],
      tm_instances = [(''example.iiko.it:user'', 0)],
      tm_global_lock = True,
      facades = [\<lparr>credentials = example_credentials, fc_api_client = 0,
                  fc_token_manager = Some 0\<rparr>],
      fc_instances = [(''example.iiko.it:user'', 0)],
      fc_lock = True,
      api_clients = 1,
      history = [Auth_get ''user'' ''a94a8fe5'']\<rparr>"


definition logout_ok :: "string \<Rightarrow> reply" where
  "logout_ok k = Inr []"

definition close_ok :: "nat \<Rightarrow> exn option" where
  "close_ok client = None"

section \<open>Theorems: credential identity\<close>

lemma sep_split_left:
  "c \<notin> set xs \<Longrightarrow> c \<notin> set ys \<Longrightarrow> xs @ c # us = ys @ c # vs \<Longrightarrow> xs = ys \<and> us = vs"
proof (induction xs arbitrary: ys)
  case Nil
  then show ?case by (cases ys) auto
next
  case (Cons x xs)
  then show ?case by (cases ys) auto
qed

lemma sep_split_right:
  assumes "c \<notin> set us" "c \<notin> set vs" "xs @ c # us = ys @ c # vs"
  shows "xs = ys \<and> us = vs"
proof -
  have "rev us @ c # rev xs = rev vs @ c # rev ys"
    using assms(3) by (metis rev.simps(2) rev_append append_assoc append_Cons append_Nil)
  then have "rev us = rev vs \<and> rev xs = rev ys"
    using assms(1,2) by (intro sep_split_left[of c]) auto
  then show ?thesis by simp
qed

text \<open>
  Claim C9, as stated, fails: the separator is not escaped, so a colon in the host or in
  the login moves the boundary. The two credentials below differ in both fields and have
  the same \<open>key_id\<close>, \<open>srv:8080:admin\<close>.
\<close>

theorem key_id_collision:
  "key_id \<lparr>host = ''srv:8080'', login = ''admin'', password = ''p''\<rparr>
     = key_id \<lparr>host = ''srv'', login = ''8080:admin'', password = ''p''\<rparr>
   \<and> (''srv:8080'', ''admin'') \<noteq> (''srv'', ''8080:admin'')"
  by (simp add: key_id_def)

text \<open>
  Claim C9, amended: \<open>key_id\<close> is the host, a colon and the login; two credentials
  whose hosts contain no colon (or whose logins contain no colon) have the same
  \<open>key_id\<close> if and only if their hosts are equal and their logins are equal.
\<close>

theorem key_id_injective_without_colon:
  "key_id c = host c @ '':'' @ login c \<and>
   ((CHR '':'' \<notin> set (host c1) \<and> CHR '':'' \<notin> set (host c2)) \<or>
    (CHR '':'' \<notin> set (login c1) \<and> CHR '':'' \<notin> set (login c2)) \<longrightarrow>
    (key_id c1 = key_id c2) = (host c1 = host c2 \<and> login c1 = login c2))"
  unfolding key_id_def
  using sep_split_left[of "CHR '':''" "host c1" "host c2" "login c1" "login c2"]
        sep_split_right[of "CHR '':''" "login c1" "login c2" "host c1" "host c2"]
  by auto

theorem key_id_injective_without_colon_witness:
  "CHR '':'' \<notin> set ''example.iiko.it'' \<and>
   key_id \<lparr>host = ''example.iiko.it'', login = ''user1'', password = ''p''\<rparr>
     \<noteq> key_id \<lparr>host = ''example.iiko.it'', login = ''user2'', password = ''p''\<rparr>"
proof -
  let ?c1 = "\<lparr>host = ''example.iiko.it'', login = ''user1'', password = ''p''\<rparr>"
  let ?c2 = "\<lparr>host = ''example.iiko.it'', login = ''user2'', password = ''p''\<rparr>"
  have h: "CHR '':'' \<notin> set (host ?c1) \<and> CHR '':'' \<notin> set (host ?c2)"
    by simp
  have "(key_id ?c1 = key_id ?c2) = (host ?c1 = host ?c2 \<and> login ?c1 = login ?c2)"
    using key_id_injective_without_colon [of ?c1 ?c1 ?c2] h by blast
  then have "key_id ?c1 \<noteq> key_id ?c2"
    by simp
  then show ?thesis
    by simp
qed

section \<open>Theorems: request encoding of the list reads\<close>

lemmas list_read_defs =
  get_products_list_def get_products_via_get_def get_products_via_post_def
  get_product_groups_list_def get_product_groups_via_get_def get_product_groups_via_post_def
  get_user_categories_list_def get_user_categories_via_get_def get_user_categories_via_post_def
  more_than_one_def only_element_def is_empty_list_def list_if_def str_truthy_def

text \<open>
  Claim C8, as stated, fails: an empty filter list is sent as an explicit empty list only
  for \<open>parent_ids\<close>. An empty \<open>ids\<close> list reaches the POST call as \<open>None\<close>, that is,
  as no filter at all (the read then returns everything, which the repository's test
  \<open>test_get_products_by_empty_ids_list\<close> expects).
\<close>

theorem empty_filter_list_sent_absent:
  "get_product_groups_list None (Some []) None None None None
     = (V2_entities_products_group_list_post None None None None None None :: unit request)
   \<and> get_user_categories_list None (Some []) None
     = (V2_entities_products_category_list_post None None None :: unit request)"
  by (simp add: list_read_defs)

text \<open>
  Claim C8, amended. For each of the three list reads: if some filter list has two or
  more elements, the GET method is called with every filter list passed on unchanged;
  otherwise the POST method is called, where an empty \<open>parent_ids\<close> list is sent as an
  explicit empty list, every other empty or absent filter list is sent as absent, and a
  filter list with exactly one true (non-empty) value is sent as the one-element
  list carrying that value.
\<close>

theorem list_read_encoding:
  fixes truthy :: "'pt \<Rightarrow> bool"
  shows
   "(let r = get_products_list truthy incl is ns ts cs ps in
     (more_than_one is \<or> more_than_one ns \<or> more_than_one ts \<or> more_than_one cs \<or> more_than_one ps
       \<longrightarrow> r = V2_entities_products_list_get incl is ns ts cs ps) \<and>
     (\<not> (more_than_one is \<or> more_than_one ns \<or> more_than_one ts \<or> more_than_one cs \<or> more_than_one ps)
       \<longrightarrow> r = V2_entities_products_list_post incl (ids r) (nums r) (types r) (category_ids r) (parent_ids r)
         \<and> (ps = Some [] \<longrightarrow> parent_ids r = Some [])
         \<and> (ps = None \<longrightarrow> parent_ids r = None)
         \<and> (is = None \<or> is = Some [] \<longrightarrow> ids r = None)
         \<and> (ns = None \<or> ns = Some [] \<longrightarrow> nums r = None)
         \<and> (ts = None \<or> ts = Some [] \<longrightarrow> types r = None)
         \<and> (cs = None \<or> cs = Some [] \<longrightarrow> category_ids r = None)
         \<and> (\<forall>x. is = Some [x] \<and> x \<noteq> [] \<longrightarrow> ids r = Some [x])
         \<and> (\<forall>x. ns = Some [x] \<and> x \<noteq> [] \<longrightarrow> nums r = Some [x])
         \<and> (\<forall>x. ts = Some [x] \<and> truthy x \<longrightarrow> types r = Some [x])
         \<and> (\<forall>x. cs = Some [x] \<and> x \<noteq> [] \<longrightarrow> category_ids r = Some [x])
         \<and> (\<forall>x. ps = Some [x] \<and> x \<noteq> [] \<longrightarrow> parent_ids r = Some [x])))
    \<and>
    (let r = (get_product_groups_list incl is ps rfrom ns cds :: 'pt request) in
     (more_than_one is \<or> more_than_one ps \<or> more_than_one ns \<or> more_than_one cds
       \<longrightarrow> r = V2_entities_products_group_list_get incl is ps rfrom ns cds) \<and>
     (\<not> (more_than_one is \<or> more_than_one ps \<or> more_than_one ns \<or> more_than_one cds)
       \<longrightarrow> r = V2_entities_products_group_list_post incl (ids r) (parent_ids r) rfrom (nums r) (codes r)
         \<and> (ps = Some [] \<longrightarrow> parent_ids r = Some [])
         \<and> (ps = None \<longrightarrow> parent_ids r = None)
         \<and> (is = None \<or> is = Some [] \<longrightarrow> ids r = None)
         \<and> (ns = None \<or> ns = Some [] \<longrightarrow> nums r = None)
         \<and> (cds = None \<or> cds = Some [] \<longrightarrow> codes r = None)
         \<and> (\<forall>x. is = Some [x] \<and> x \<noteq> [] \<longrightarrow> ids r = Some [x])
         \<and> (\<forall>x. ps = Some [x] \<and> x \<noteq> [] \<longrightarrow> parent_ids r = Some [x])
         \<and> (\<forall>x. ns = Some [x] \<and> x \<noteq> [] \<longrightarrow> nums r = Some [x])
         \<and> (\<forall>x. cds = Some [x] \<and> x \<noteq> [] \<longrightarrow> codes r = Some [x])))
    \<and>
    (let r = (get_user_categories_list incl is rfrom :: 'pt request) in
     (more_than_one is \<longrightarrow> r = V2_entities_products_category_list_get incl is rfrom) \<and>
     (\<not> more_than_one is
       \<longrightarrow> r = V2_entities_products_category_list_post incl (ids r) rfrom
         \<and> (is = None \<or> is = Some [] \<longrightarrow> ids r = None)
         \<and> (\<forall>x. is = Some [x] \<and> x \<noteq> [] \<longrightarrow> ids r = Some [x])))"
proof -
  show ?thesis
    unfolding Let_def
    apply (intro conjI)
    subgoal by (auto simp: get_products_list_def get_products_via_get_def)
    subgoal by (auto simp: list_read_defs split: option.splits)
    subgoal by (auto simp: get_product_groups_list_def get_product_groups_via_get_def)
    subgoal by (auto simp: list_read_defs split: option.splits)
    subgoal by (auto simp: get_user_categories_list_def get_user_categories_via_get_def)
    subgoal by (auto simp: list_read_defs split: option.splits)
    done
qed

theorem list_read_encoding_witness:
  "more_than_one (Some [''a'', ''b''])
   \<and> get_product_groups_list (Some False) (Some [''a'', ''b'']) (Some []) None None None
       = (V2_entities_products_group_list_get (Some False) (Some [''a'', ''b'']) (Some []) None None None
          :: unit request)"
  using list_read_encoding
    [where ?is = "Some [''a'', ''b'']" and ?ps = "Some []" and ?ns = None and ?cds = None
       and ?incl = "Some False" and ?rfrom = None and ?'pt = unit]
  by (simp add: more_than_one_def)

section \<open>Theorems: the token manager\<close>

lemmas tm_defs = event_clear_def event_set_def fetch_token_begin_def fetch_token_end_def
  set_token_def Let_def

lemmas example_defs = example_manager_def error_401_def network_error_def two_refreshers_def

subsection \<open>The version counter\<close>

lemma pc_step_version_mono:
  "pc_step r p tm = Some (p', tm', evs) \<Longrightarrow> token_version tm \<le> token_version tm'"
  by (cases p) (auto simp: tm_defs split: if_splits sum.splits option.splits)

lemma pc_step_token_present:
  "pc_step r p tm = Some (p', tm', evs) \<Longrightarrow> token tm' \<noteq> None \<Longrightarrow> token tm' \<noteq> token tm \<Longrightarrow>
   token_version tm' = token_version tm + 1"
  by (cases p) (auto simp: tm_defs split: if_splits sum.splits option.splits)

lemma pc_step_acquire:
  "p = Ensure_token_fetch \<or> p = Refresh_fetch \<Longrightarrow>
   \<exists>p'. pc_step (Inr tok) p tm = Some (p', tm', evs) \<Longrightarrow>
   token tm' = Some tok \<and> token_version tm' = token_version tm + 1"
  by (auto simp: tm_defs split: if_splits)

lemma fire_version_mono:
  "fire l c = Some c' \<Longrightarrow> token_version (mgr c) \<le> token_version (mgr c')"
  by (auto simp: fire_def split: prod.splits if_splits option.splits dest: pc_step_version_mono)

lemma exec_version_mono:
  "exec s c = Some c' \<Longrightarrow> token_version (mgr c) \<le> token_version (mgr c')"
proof (induction s arbitrary: c)
  case Nil
  then show ?case by simp
next
  case (Cons l ls)
  then obtain c1 where f: "fire l c = Some c1" and e: "exec ls c1 = Some c'"
    by (auto split: option.splits)
  from fire_version_mono[OF f] Cons.IH[OF e] show ?case by simp
qed

text \<open>
  Claim C6. No step of \<open>ensure_token\<close>, \<open>refresh_token_if_401\<close> or \<open>logout\<close>, and so
  no run of any number of concurrent tasks, decreases the version counter; a step that
  leaves a token present that was not there before raises it; and every successful
  acquisition (the fetch of \<open>ensure_token\<close> or of a refresh answered with a token)
  stores that token and raises the counter by one.
\<close>

theorem token_version_increases:
  "(exec s c = Some c' \<longrightarrow> token_version (mgr c) \<le> token_version (mgr c')) \<and>
   (pc_step r p tm = Some (p', tm', evs) \<longrightarrow>
      token_version tm \<le> token_version tm' \<and>
      (token tm' \<noteq> None \<and> token tm' \<noteq> token tm \<longrightarrow> token_version tm < token_version tm') \<and>
      ((p = Ensure_token_fetch \<or> p = Refresh_fetch) \<and> r = Inr tok \<longrightarrow>
         token tm' = Some tok \<and> token_version tm' = token_version tm + 1))"
  using exec_version_mono[of s c c'] pc_step_version_mono[of r p tm p' tm' evs]
    pc_step_token_present[of r p tm p' tm' evs] pc_step_acquire[of p tok tm tm' evs]
  by auto

theorem token_version_increases_witness:
  "pc_step (Inr ''t2'') Refresh_fetch (example_manager\<lparr>api_key := [], lock := True, refresh_event := False\<rparr>)
     = Some (Ret (Inr (BoolV True)),
             example_manager\<lparr>api_key := [(''iikoCookieAuth'', ''t2'')], token := Some ''t2'',
                             token_version := 2, refresh_event_sets := 2\<rparr>, [])
   \<and> token_version (example_manager\<lparr>api_key := [], lock := True, refresh_event := False\<rparr>) < 2"
proof -
  let ?tm = "example_manager\<lparr>api_key := [], lock := True, refresh_event := False\<rparr>"
  let ?tm' = "example_manager\<lparr>api_key := [(''iikoCookieAuth'', ''t2'')], token := Some ''t2'',
                             token_version := 2, refresh_event_sets := 2\<rparr>"
  have st: "pc_step (Inr ''t2'') Refresh_fetch ?tm = Some (Ret (Inr (BoolV True)), ?tm', [])"
    by (simp add: example_manager_def tm_defs)
  have "token_version ?tm' = token_version ?tm + 1"
    using token_version_increases
      [where r = "Inr ''t2''" and p = Refresh_fetch and tm = ?tm and tm' = ?tm' and tok = "''t2''"
         and p' = "Ret (Inr (BoolV True))" and evs = "[]"] st
    by blast
  then have "token_version ?tm < 2"
    by (simp add: example_manager_def)
  then show ?thesis using st by simp
qed

subsection \<open>A refresh whose fetch fails\<close>

lemma refresh_fetch_fails:
  "pc_step (Inl exc) Refresh_fetch tm =
     Some (Ret (Inl (IikoServerAuthException
                      (if is_UnauthorizedException exc then Invalid_credentials else Fetch_failed) exc)),
           (event_set (tm\<lparr>token := None, api_key := []\<rparr>))\<lparr>lock := False\<rparr>, [])"
  by (simp add: fetch_token_end_def)

lemma after_failure:
  "token ((event_set (tm\<lparr>token := None, api_key := []\<rparr>))\<lparr>lock := False\<rparr>) = None"
  "api_key ((event_set (tm\<lparr>token := None, api_key := []\<rparr>))\<lparr>lock := False\<rparr>) = []"
  "refresh_event ((event_set (tm\<lparr>token := None, api_key := []\<rparr>))\<lparr>lock := False\<rparr>)"
  "\<not> lock ((event_set (tm\<lparr>token := None, api_key := []\<rparr>))\<lparr>lock := False\<rparr>)"
  "token_version ((event_set (tm\<lparr>token := None, api_key := []\<rparr>))\<lparr>lock := False\<rparr>) = token_version tm"
  "tm_login ((event_set (tm\<lparr>token := None, api_key := []\<rparr>))\<lparr>lock := False\<rparr>) = tm_login tm"
  "tm_password_hash ((event_set (tm\<lparr>token := None, api_key := []\<rparr>))\<lparr>lock := False\<rparr>) = tm_password_hash tm"
  by (simp_all add: event_set_def)

lemma refresh_alone_fetches:
  assumes "\<not> lock tm" "refresh_event tm" "is_401 err"
  shows "await_alone r (Refresh_token_if_401 err) tm =
    (case fetch_token_end r of
       Inr tok \<Rightarrow> Some (Inr (BoolV True),
           (event_set ((set_token tok (tm\<lparr>refresh_event := False, api_key := [], lock := True\<rparr>))
              \<lparr>token_version := token_version tm + 1\<rparr>))\<lparr>lock := False\<rparr>,
           [Log_401 (token_version tm), Auth_get (tm_login tm) (tm_password_hash tm)])
     | Inl e \<Rightarrow> Some (Inl e,
           (event_set (tm\<lparr>refresh_event := False, api_key := [], lock := True, token := None, api_key := []\<rparr>))\<lparr>lock := False\<rparr>,
           [Log_401 (token_version tm), Auth_get (tm_login tm) (tm_password_hash tm)]))"
  using assms
  by (simp add: await_alone_def numeral_3_eq_3 event_clear_def fetch_token_begin_def Let_def split: sum.splits)

lemma ensure_alone_fetches:
  assumes "\<not> lock tm" "token tm = None"
  shows "await_alone r Ensure_token tm =
    (case fetch_token_end r of
       Inr tok \<Rightarrow> Some (Inr NoneV,
           (event_set ((set_token tok (tm\<lparr>refresh_event := False, api_key := [], lock := True\<rparr>))
              \<lparr>token_version := token_version tm + 1\<rparr>))\<lparr>lock := False\<rparr>,
           [Auth_get (tm_login tm) (tm_password_hash tm)])
     | Inl e \<Rightarrow> Some (Inl e,
           (event_set (tm\<lparr>refresh_event := False, api_key := [], lock := True\<rparr>))\<lparr>lock := False\<rparr>,
           [Auth_get (tm_login tm) (tm_password_hash tm)]))"
  using assms
  by (simp add: await_alone_def numeral_3_eq_3 event_clear_def fetch_token_begin_def Let_def split: sum.splits)

text \<open>
  Claim C5. When the authentication request of a refresh raises an exception, the
  step that receives it leaves the token absent, the transport's key empty, the event
  set and the lock free, and the task raises \<open>IikoServerAuthException\<close> carrying the
  original exception. A later \<open>refresh_token_if_401\<close> with a 401 error, and a later
  \<open>ensure_token\<close>, call the authentication endpoint again. The same holds for the whole
  call, run from a manager on which nobody is fetching.
\<close>

theorem refresh_failure_resets:
  "\<exists>tm' k.
     pc_step (Inl exc) Refresh_fetch tm = Some (Ret (Inl (IikoServerAuthException k exc)), tm', [])
     \<and> token tm' = None \<and> api_key tm' = [] \<and> refresh_event tm' \<and> \<not> lock tm'
     \<and> (is_401 err \<longrightarrow>
          (\<exists>res tm'' evs. await_alone r (Refresh_token_if_401 err) tm' = Some (res, tm'', evs)
             \<and> Auth_get (tm_login tm) (tm_password_hash tm) \<in> set evs))
     \<and> (\<exists>res tm'' evs. await_alone r Ensure_token tm' = Some (res, tm'', evs)
             \<and> Auth_get (tm_login tm) (tm_password_hash tm) \<in> set evs)
     \<and> (\<not> lock tm \<and> refresh_event tm \<and> is_401 err \<longrightarrow>
          (\<exists>tm1. await_alone (Inl exc) (Refresh_token_if_401 err) tm
                    = Some (Inl (IikoServerAuthException k exc), tm1,
                            [Log_401 (token_version tm), Auth_get (tm_login tm) (tm_password_hash tm)])
             \<and> token tm1 = None \<and> api_key tm1 = [] \<and> refresh_event tm1 \<and> \<not> lock tm1))"
proof -
  let ?tm' = "(event_set (tm\<lparr>token := None, api_key := []\<rparr>))\<lparr>lock := False\<rparr>"
  let ?k = "if is_UnauthorizedException exc then Invalid_credentials else Fetch_failed"
  have 1: "pc_step (Inl exc) Refresh_fetch tm = Some (Ret (Inl (IikoServerAuthException ?k exc)), ?tm', [])"
    by (rule refresh_fetch_fails)
  have 2: "is_401 err \<Longrightarrow> \<exists>res tm'' evs. await_alone r (Refresh_token_if_401 err) ?tm' = Some (res, tm'', evs)
             \<and> Auth_get (tm_login tm) (tm_password_hash tm) \<in> set evs"
    using refresh_alone_fetches[of ?tm' err r] after_failure[of tm]
    by (cases "fetch_token_end r") auto
  have 3: "\<exists>res tm'' evs. await_alone r Ensure_token ?tm' = Some (res, tm'', evs)
             \<and> Auth_get (tm_login tm) (tm_password_hash tm) \<in> set evs"
    using ensure_alone_fetches[of ?tm' r] after_failure[of tm]
    by (cases "fetch_token_end r") auto
  have 4: "\<not> lock tm \<and> refresh_event tm \<and> is_401 err \<Longrightarrow>
          (\<exists>tm1. await_alone (Inl exc) (Refresh_token_if_401 err) tm
                    = Some (Inl (IikoServerAuthException ?k exc), tm1,
                            [Log_401 (token_version tm), Auth_get (tm_login tm) (tm_password_hash tm)])
             \<and> token tm1 = None \<and> api_key tm1 = [] \<and> refresh_event tm1 \<and> \<not> lock tm1)"
    using refresh_alone_fetches[of tm err "Inl exc"]
    by (auto simp: fetch_token_end_def event_set_def)
  show ?thesis
    using 1 2 3 4 after_failure[of tm] by blast
qed

theorem refresh_failure_resets_witness:
  "\<not> lock example_manager \<and> refresh_event example_manager \<and> is_401 error_401 \<and>
   (\<exists>tm1. await_alone (Inl network_error) (Refresh_token_if_401 error_401) example_manager
     = Some (Inl (IikoServerAuthException Fetch_failed network_error), tm1,
             [Log_401 1, Auth_get ''user'' ''a94a8fe5''])
     \<and> token tm1 = None \<and> api_key tm1 = [] \<and> refresh_event tm1 \<and> \<not> lock tm1)"
proof -
  have a: "\<not> lock example_manager \<and> refresh_event example_manager \<and> is_401 error_401"
    by (simp add: example_defs is_401_def)
  from refresh_failure_resets
         [where exc = network_error and tm = example_manager and err = error_401 and r = "Inr []"]
  obtain k tm1 where
    r: "await_alone (Inl network_error) (Refresh_token_if_401 error_401) example_manager
       = Some (Inl (IikoServerAuthException k network_error), tm1,
               [Log_401 (token_version example_manager),
                Auth_get (tm_login example_manager) (tm_password_hash example_manager)])"
    and t: "token tm1 = None \<and> api_key tm1 = [] \<and> refresh_event tm1 \<and> \<not> lock tm1"
    using a by blast
  have "await_alone (Inl network_error) (Refresh_token_if_401 error_401) example_manager
       = Some (Inl (IikoServerAuthException Fetch_failed network_error),
               example_manager\<lparr>api_key := [], token := None, refresh_event_sets := 2\<rparr>,
               [Log_401 1, Auth_get ''user'' ''a94a8fe5''])"
    by (simp add: example_defs await_alone_def numeral_3_eq_3 tm_defs is_401_def)
  with r have k: "k = Fetch_failed"
    by simp
  have v: "token_version example_manager = 1" "tm_login example_manager = ''user''"
    "tm_password_hash example_manager = ''a94a8fe5''"
    by (simp_all add: example_manager_def)
  show ?thesis
    using a r t unfolding k v by blast
qed

subsection \<open>Concurrent runs: invariant, progress, bound\<close>

text \<open>What a step does to the lock, the event and the kind of point.\<close>

lemma pc_step_kinds:
  assumes "pc_step r p tm = Some (p', tm', evs)"
  shows "(\<not> fetching p \<and> \<not> fetching p' \<and> lock tm' = lock tm \<and> refresh_event tm' = refresh_event tm
           \<and> refresh_event_sets tm' = refresh_event_sets tm
           \<and> (\<forall>vb k. p' = Refresh_wait vb k \<longrightarrow> k = refresh_event_sets tm \<and> \<not> refresh_event tm))
       \<or> (\<not> fetching p \<and> fetching p' \<and> \<not> lock tm \<and> lock tm' \<and> \<not> refresh_event tm'
           \<and> refresh_event_sets tm' = refresh_event_sets tm)
       \<or> (fetching p \<and> finished p' \<and> \<not> lock tm' \<and> refresh_event tm'
           \<and> refresh_event_sets tm' = (if refresh_event tm then refresh_event_sets tm
                                        else Suc (refresh_event_sets tm)))"
  using assms
  by (cases p) (auto simp: tm_defs split: if_splits sum.splits option.splits)

lemma fire_SomeE:
  assumes "fire (i, r) c = Some c'"
  obtains p' tm' evs where "i < length (tasks c)" "pc_step r (tasks c ! i) (mgr c) = Some (p', tm', evs)"
    "c' = c\<lparr>mgr := tm', tasks := (tasks c)[i := p'], trace := trace c @ map (Pair i) evs\<rparr>"
  using assms by (auto simp: fire_def split: if_splits option.splits)

lemma finished_not_fetching: "finished p \<Longrightarrow> \<not> fetching p"
  by (cases p) auto

lemma inv_fire:
  assumes "lock_inv c" "fire l c = Some c'"
  shows "lock_inv c'"
proof -
  obtain i r where l: "l = (i, r)" by (cases l)
  from assms(2)[unfolded l] obtain p' tm' evs where
    i: "i < length (tasks c)" and st: "pc_step r (tasks c ! i) (mgr c) = Some (p', tm', evs)"
    and c': "c' = c\<lparr>mgr := tm', tasks := (tasks c)[i := p'], trace := trace c @ map (Pair i) evs\<rparr>"
    by (rule fire_SomeE)
  note k = pc_step_kinds[OF st]
  have len: "length (tasks c') = length (tasks c)" by (simp add: c')
  have nth: "\<And>j. j < length (tasks c) \<Longrightarrow> tasks c' ! j = (if j = i then p' else tasks c ! j)"
    by (simp add: c' nth_list_update)
  have m: "mgr c' = tm'" by (simp add: c')
  from assms(1) have
    I1: "lock (mgr c) \<longleftrightarrow> (\<exists>j < length (tasks c). fetching (tasks c ! j))" and
    I2: "\<And>a b. a < length (tasks c) \<Longrightarrow> b < length (tasks c) \<Longrightarrow> fetching (tasks c ! a) \<Longrightarrow> fetching (tasks c ! b) \<Longrightarrow> a = b" and
    I3: "\<not> refresh_event (mgr c) \<Longrightarrow> lock (mgr c)" and
    I4: "\<And>j vb k. j < length (tasks c) \<Longrightarrow> tasks c ! j = Refresh_wait vb k \<Longrightarrow>
             k < refresh_event_sets (mgr c) \<or> (k = refresh_event_sets (mgr c) \<and> \<not> refresh_event (mgr c))"
    unfolding lock_inv_def by blast+
  from k consider
    (A) "\<not> fetching (tasks c ! i)" "\<not> fetching p'" "lock tm' = lock (mgr c)"
        "refresh_event tm' = refresh_event (mgr c)" "refresh_event_sets tm' = refresh_event_sets (mgr c)"
        "\<And>vb k. p' = Refresh_wait vb k \<Longrightarrow> k = refresh_event_sets (mgr c) \<and> \<not> refresh_event (mgr c)"
  | (B) "\<not> fetching (tasks c ! i)" "fetching p'" "\<not> lock (mgr c)" "lock tm'" "\<not> refresh_event tm'"
        "refresh_event_sets tm' = refresh_event_sets (mgr c)"
  | (C) "fetching (tasks c ! i)" "finished p'" "\<not> lock tm'" "refresh_event tm'"
        "refresh_event_sets tm' = (if refresh_event (mgr c) then refresh_event_sets (mgr c)
                                        else Suc (refresh_event_sets (mgr c)))"
    by blast
  then show ?thesis
  proof cases
    case A
    have "lock tm' \<longleftrightarrow> (\<exists>j < length (tasks c). fetching (tasks c' ! j))"
      using I1 A(1,2,3) i nth by (metis)
    moreover have "\<And>a b. a < length (tasks c) \<Longrightarrow> b < length (tasks c) \<Longrightarrow> fetching (tasks c' ! a) \<Longrightarrow> fetching (tasks c' ! b) \<Longrightarrow> a = b"
      using I2 A(2) nth by (metis)
    moreover have "\<not> refresh_event tm' \<Longrightarrow> lock tm'"
      using I3 A(3,4) by simp
    moreover have "\<And>j vb k. j < length (tasks c) \<Longrightarrow> tasks c' ! j = Refresh_wait vb k \<Longrightarrow>
             k < refresh_event_sets tm' \<or> (k = refresh_event_sets tm' \<and> \<not> refresh_event tm')"
      using I4 A(4,5,6) nth by (metis)
    ultimately show ?thesis unfolding lock_inv_def len m by blast
  next
    case B
    have none: "\<And>j. j < length (tasks c) \<Longrightarrow> \<not> fetching (tasks c ! j)"
      using I1 B(3) by blast
    have "lock tm' \<longleftrightarrow> (\<exists>j < length (tasks c). fetching (tasks c' ! j))"
      using B(2,4) i nth by (metis)
    moreover have "\<And>a b. a < length (tasks c) \<Longrightarrow> b < length (tasks c) \<Longrightarrow> fetching (tasks c' ! a) \<Longrightarrow> fetching (tasks c' ! b) \<Longrightarrow> a = b"
      using none nth by (metis)
    moreover have "\<not> refresh_event tm' \<Longrightarrow> lock tm'"
      using B(4) by simp
    moreover have "\<And>j vb k. j < length (tasks c) \<Longrightarrow> tasks c' ! j = Refresh_wait vb k \<Longrightarrow>
             k < refresh_event_sets tm' \<or> (k = refresh_event_sets tm' \<and> \<not> refresh_event tm')"
    proof -
      fix j vb k assume j: "j < length (tasks c)" and w: "tasks c' ! j = Refresh_wait vb k"
      have "j \<noteq> i" using w B(2) nth[OF j] by auto
      then have "tasks c ! j = Refresh_wait vb k" using w nth[OF j] by simp
      from I4[OF j this] show "k < refresh_event_sets tm' \<or> (k = refresh_event_sets tm' \<and> \<not> refresh_event tm')"
        using B(5,6) by auto
    qed
    ultimately show ?thesis unfolding lock_inv_def len m by blast
  next
    case C
    have only: "\<And>j. j < length (tasks c) \<Longrightarrow> fetching (tasks c ! j) \<Longrightarrow> j = i"
      using I2 C(1) i by blast
    have nf: "\<not> fetching p'" using C(2) by (rule finished_not_fetching)
    have none: "\<And>j. j < length (tasks c) \<Longrightarrow> \<not> fetching (tasks c' ! j)"
      using only nf nth by (metis)
    have "lock tm' \<longleftrightarrow> (\<exists>j < length (tasks c). fetching (tasks c' ! j))"
      using C(3) none by blast
    moreover have "\<And>a b. a < length (tasks c) \<Longrightarrow> b < length (tasks c) \<Longrightarrow> fetching (tasks c' ! a) \<Longrightarrow> fetching (tasks c' ! b) \<Longrightarrow> a = b"
      using none by blast
    moreover have "\<not> refresh_event tm' \<Longrightarrow> lock tm'"
      using C(4) by simp
    moreover have "\<And>j vb k. j < length (tasks c) \<Longrightarrow> tasks c' ! j = Refresh_wait vb k \<Longrightarrow>
             k < refresh_event_sets tm' \<or> (k = refresh_event_sets tm' \<and> \<not> refresh_event tm')"
    proof -
      fix j vb k assume j: "j < length (tasks c)" and w: "tasks c' ! j = Refresh_wait vb k"
      have "j \<noteq> i" using w C(2) nth[OF j] by auto
      then have "tasks c ! j = Refresh_wait vb k" using w nth[OF j] by simp
      from I4[OF j this] show "k < refresh_event_sets tm' \<or> (k = refresh_event_sets tm' \<and> \<not> refresh_event tm')"
        using C(5) by auto
    qed
    ultimately show ?thesis unfolding lock_inv_def len m by blast
  qed
qed

lemma is_call_not_fetching: "is_call p \<Longrightarrow> \<not> fetching p \<and> (\<forall>vb k. p \<noteq> Refresh_wait vb k)"
  by (cases p) auto

lemma initial_inv: "initial c \<Longrightarrow> lock_inv c"
  unfolding initial_def lock_inv_def list_all_length
  using is_call_not_fetching by blast

lemma exec_inv: "lock_inv c \<Longrightarrow> exec s c = Some c' \<Longrightarrow> lock_inv c'"
proof (induction s arbitrary: c)
  case Nil
  then show ?case by simp
next
  case (Cons l ls)
  then obtain c1 where f: "fire l c = Some c1" and e: "exec ls c1 = Some c'"
    by (auto split: option.splits)
  from Cons.IH[OF inv_fire[OF Cons.prems(1) f] e] show ?case .
qed

lemma exec_length: "exec s c = Some c' \<Longrightarrow> length (tasks c') = length (tasks c)"
proof (induction s arbitrary: c)
  case Nil
  then show ?case by simp
next
  case (Cons l ls)
  then obtain c1 where f: "fire l c = Some c1" and e: "exec ls c1 = Some c'"
    by (auto split: option.splits)
  obtain i r where l: "l = (i, r)" by (cases l)
  from f[unfolded l] have "length (tasks c1) = length (tasks c)"
    by (elim fire_SomeE) simp
  with Cons.IH[OF e] show ?case by simp
qed

text \<open>A task that has not finished can run, or the task that holds the lock can.\<close>

lemma pc_enabled:
  "\<not> finished p \<Longrightarrow> pc_step r p tm = None \<Longrightarrow>
     (lock tm \<and> (p = Ensure_token_lock \<or> (\<exists>vb. p = Refresh_lock vb)))
   \<or> (\<exists>vb k. p = Refresh_wait vb k \<and> refresh_event_sets tm \<le> k)"
  by (cases p) (auto simp: tm_defs split: if_splits sum.splits option.splits)

lemma fetching_enabled: "fetching p \<Longrightarrow> pc_step r p tm \<noteq> None"
  by (cases p) (auto simp: tm_defs split: sum.splits)

lemma fire_enabled:
  "i < length (tasks c) \<Longrightarrow> pc_step r (tasks c ! i) (mgr c) \<noteq> None \<Longrightarrow> fire (i, r) c \<noteq> None"
  by (auto simp: fire_def split: option.splits)

lemma progress:
  assumes "lock_inv c" "i < length (tasks c)" "\<not> finished (tasks c ! i)"
  shows "\<exists>j r. fire (j, r) c \<noteq> None"
proof (cases "pc_step (Inr []) (tasks c ! i) (mgr c)")
  case (Some a)
  then have "fire (i, Inr []) c \<noteq> None"
    using assms(2) by (intro fire_enabled) auto
  then show ?thesis by blast
next
  case None
  from pc_enabled[OF assms(3) None] have "lock (mgr c)"
    using assms(1,2) unfolding lock_inv_def by (metis not_less_iff_gr_or_eq not_le)
  then obtain j where j: "j < length (tasks c)" "fetching (tasks c ! j)"
    using assms(1) unfolding lock_inv_def by blast
  from fetching_enabled[OF j(2)] have "fire (j, Inr []) c \<noteq> None"
    using j(1) by (intro fire_enabled) auto
  then show ?thesis by blast
qed

text \<open>Every step lowers the sum of the ranks, so a run of \<open>n\<close> tasks has at most \<open>3 * n\<close> steps.\<close>

lemma pc_step_rank: "pc_step r p tm = Some (p', tm', evs) \<Longrightarrow> rank p' < rank p"
  by (cases p) (auto simp: tm_defs split: if_splits sum.splits option.splits)

lemma sum_rank_update:
  "i < length ps \<Longrightarrow> rank p' < rank (ps ! i) \<Longrightarrow>
   sum_list (map rank (ps[i := p'])) < sum_list (map rank ps)"
proof (induction ps arbitrary: i)
  case Nil
  then show ?case by simp
next
  case (Cons a ps)
  then show ?case by (cases i) auto
qed

lemma fire_rank:
  assumes "fire l c = Some c'"
  shows "sum_list (map rank (tasks c')) < sum_list (map rank (tasks c))"
proof -
  obtain i r where l: "l = (i, r)" by (cases l)
  from assms[unfolded l] show ?thesis
    by (elim fire_SomeE) (simp add: sum_rank_update pc_step_rank)
qed

lemma exec_rank:
  "exec s c = Some c' \<Longrightarrow> length s + sum_list (map rank (tasks c')) \<le> sum_list (map rank (tasks c))"
proof (induction s arbitrary: c)
  case Nil
  then show ?case by simp
next
  case (Cons l ls)
  then obtain c1 where f: "fire l c = Some c1" and e: "exec ls c1 = Some c'"
    by (auto split: option.splits)
  from fire_rank[OF f] Cons.IH[OF e] show ?case by simp
qed

lemma rank_le_3: "rank p \<le> 3"
  by (cases p) auto

lemma sum_rank_bound: "sum_list (map rank ps) \<le> 3 * length ps"
proof (induction ps)
  case Nil
  then show ?case by simp
next
  case (Cons a ps)
  then show ?case using rank_le_3[of a] by simp
qed

lemma exec_bound: "exec s c = Some c' \<Longrightarrow> length s \<le> 3 * length (tasks c)"
  using exec_rank[of s c c'] sum_rank_bound[of "tasks c"] by linarith


text \<open>
  Three steps are enough fuel for a coroutine that runs alone: with more, the outcome is
  the same.
\<close>

lemma run_alone_Suc:
  "\<not> finished p \<Longrightarrow>
   run_alone (Suc n) r p tm evs =
     (case pc_step r p tm of None \<Rightarrow> None
      | Some (p', tm', es) \<Rightarrow> run_alone n r p' tm' (evs @ es))"
  by (cases p) simp_all

lemma run_alone_enough:
  "rank p \<le> n \<Longrightarrow> run_alone (n + m) r p tm evs = run_alone n r p tm evs"
proof (induction n arbitrary: p tm evs)
  case 0
  then show ?case by (cases p) auto
next
  case (Suc n)
  show ?case
  proof (cases "finished p")
    case True
    then show ?thesis by (cases p) auto
  next
    case False
    show ?thesis
    proof (cases "pc_step r p tm")
      case None
      then show ?thesis using False by (simp add: run_alone_Suc)
    next
      case (Some a)
      obtain p' tm' es where a: "a = (p', tm', es)" by (cases a)
      have "rank p' < rank p" using Some a by (auto dest: pc_step_rank)
      then have "rank p' \<le> n" using Suc.prems by simp
      from Suc.IH[OF this] show ?thesis using Some a False by (simp add: run_alone_Suc)
    qed
  qed
qed

lemma await_alone_fuel:
  "run_alone (3 + m) r p tm [] = await_alone r p tm"
proof -
  have "rank p \<le> 3" by (rule rank_le_3)
  from run_alone_enough[OF this] show ?thesis by (simp add: await_alone_def)
qed

subsection \<open>Concurrent refreshes of one version\<close>

lemma auth_calls_append:
  "auth_calls (tr @ map (Pair i) evs) = auth_calls tr + length (filter is_Auth_get evs)"
  by (simp add: auth_calls_def filter_map comp_def)

lemma refresh_point_mono:
  "refresh_point tr i p \<Longrightarrow> refresh_point (tr @ tr') i p"
  by (cases p) auto

text \<open>The steps of a refresh task, one by one, under a successful reply.\<close>

lemma refresh_step:
  assumes "pc_step (Inr tok) p tm = Some (p', tm', evs)" "refresh_point tr i p"
  shows
   "(\<exists>e. p = Refresh_token_if_401 e \<and> \<not> refresh_event tm \<and> tm' = tm
        \<and> p' = Refresh_wait (token_version tm) (refresh_event_sets tm)
        \<and> evs = [Log_401 (token_version tm), Log_waiting])
  \<or> (\<exists>e. p = Refresh_token_if_401 e \<and> refresh_event tm \<and> tm' = tm
        \<and> p' = Refresh_lock (token_version tm) \<and> evs = [Log_401 (token_version tm)])
  \<or> (\<exists>vb k. p = Refresh_wait vb k \<and> tm' = tm \<and> p' = Ret (Inr (BoolV True)) \<and> evs = [])
  \<or> (\<exists>vb. p = Refresh_lock vb \<and> \<not> lock tm \<and> token_version tm \<noteq> vb \<and> tm' = tm
        \<and> p' = Ret (Inr (BoolV True)) \<and> evs = [Log_already_refreshed vb (token_version tm)])
  \<or> (\<exists>vb. p = Refresh_lock vb \<and> \<not> lock tm \<and> token_version tm = vb \<and> lock tm'
        \<and> token_version tm' = token_version tm
        \<and> p' = Refresh_fetch \<and> evs = [Auth_get (tm_login tm) (tm_password_hash tm)])
  \<or> (p = Refresh_fetch \<and> \<not> lock tm' \<and> token_version tm' = token_version tm + 1
        \<and> p' = Ret (Inr (BoolV True)) \<and> evs = [])"
  using assms
  by (cases p) (auto simp: tm_defs split: if_splits)

lemma coalesced_fire:
  assumes I: "lock_inv c" and J: "coalesced v0 c" and f: "fire (i, Inr tok) c = Some c'"
    and H: "\<forall>j v. (j, Log_401 v) \<in> set (trace c') \<longrightarrow> v = v0"
  shows "coalesced v0 c'"
proof -
  from f obtain p' tm' evs where
    i: "i < length (tasks c)" and st: "pc_step (Inr tok) (tasks c ! i) (mgr c) = Some (p', tm', evs)"
    and c': "c' = c\<lparr>mgr := tm', tasks := (tasks c)[i := p'], trace := trace c @ map (Pair i) evs\<rparr>"
    by (rule fire_SomeE)
  have len: "length (tasks c') = length (tasks c)" by (simp add: c')
  have nth: "\<And>j. j < length (tasks c) \<Longrightarrow> tasks c' ! j = (if j = i then p' else tasks c ! j)"
    by (simp add: c' nth_list_update)
  have m: "mgr c' = tm'" by (simp add: c')
  have tr: "trace c' = trace c @ map (Pair i) evs" by (simp add: c')
  from J have
    J1: "\<And>j. j < length (tasks c) \<Longrightarrow> refresh_point (trace c) j (tasks c ! j)" and
    J2: "auth_calls (trace c) = (token_version (mgr c) - v0) + (if lock (mgr c) then 1 else 0)" and
    J3: "v0 \<le> token_version (mgr c)" "token_version (mgr c) \<le> v0 + 1" and
    J4: "lock (mgr c) \<Longrightarrow> token_version (mgr c) = v0" and
    J5: "(\<exists>j < length (tasks c). waiting_or_finished (tasks c ! j)) \<Longrightarrow> 1 \<le> auth_calls (trace c)"
    unfolding coalesced_def by blast+
  have others: "\<And>j. j < length (tasks c) \<Longrightarrow> j \<noteq> i \<Longrightarrow> refresh_point (trace c') j (tasks c' ! j)"
    using J1 nth tr refresh_point_mono by simp
  have snap: "\<And>vb. (i, Log_401 vb) \<in> set (trace c) \<Longrightarrow> vb = v0"
    using H tr by auto
  have ac: "auth_calls (trace c') = auth_calls (trace c) + length (filter is_Auth_get evs)"
    unfolding tr by (rule auth_calls_append)
  have wf_old: "\<And>j. j < length (tasks c) \<Longrightarrow> j \<noteq> i \<Longrightarrow> waiting_or_finished (tasks c' ! j)
      \<Longrightarrow> 1 \<le> auth_calls (trace c)"
    using J5 nth by auto
  have goal: "coalesced v0 c'" if
    G1: "refresh_point (trace c') i p'" and
    G2: "auth_calls (trace c') = (token_version tm' - v0) + (if lock tm' then 1 else 0)" and
    G3: "v0 \<le> token_version tm'" "token_version tm' \<le> v0 + 1" and
    G4: "lock tm' \<Longrightarrow> token_version tm' = v0" and
    G5: "waiting_or_finished p' \<Longrightarrow> 1 \<le> auth_calls (trace c')"
  proof -
    have a: "\<And>j. j < length (tasks c') \<Longrightarrow> refresh_point (trace c') j (tasks c' ! j)"
      using others G1 nth len by (metis)
    have b: "(\<exists>j < length (tasks c'). waiting_or_finished (tasks c' ! j)) \<Longrightarrow> 1 \<le> auth_calls (trace c')"
    proof -
      assume "\<exists>j < length (tasks c'). waiting_or_finished (tasks c' ! j)"
      then obtain j where j: "j < length (tasks c)" "waiting_or_finished (tasks c' ! j)"
        using len by auto
      show "1 \<le> auth_calls (trace c')"
      proof (cases "j = i")
        case True
        then show ?thesis using j nth G5 by simp
      next
        case False
        then show ?thesis using wf_old[OF j(1) False j(2)] ac by simp
      qed
    qed
    show ?thesis
      unfolding coalesced_def m using a b G2 G3 G4 by blast
  qed
  from refresh_step[OF st J1[OF i]] consider
    (wait) e where "tasks c ! i = Refresh_token_if_401 e" "\<not> refresh_event (mgr c)" "tm' = mgr c"
        "p' = Refresh_wait (token_version (mgr c)) (refresh_event_sets (mgr c))"
        "evs = [Log_401 (token_version (mgr c)), Log_waiting]"
  | (enter) e where "tasks c ! i = Refresh_token_if_401 e" "refresh_event (mgr c)" "tm' = mgr c"
        "p' = Refresh_lock (token_version (mgr c))" "evs = [Log_401 (token_version (mgr c))]"
  | (released) vb k where "tasks c ! i = Refresh_wait vb k" "tm' = mgr c" "p' = Ret (Inr (BoolV True))" "evs = []"
  | (skip) vb where "tasks c ! i = Refresh_lock vb" "\<not> lock (mgr c)" "token_version (mgr c) \<noteq> vb" "tm' = mgr c"
        "p' = Ret (Inr (BoolV True))" "evs = [Log_already_refreshed vb (token_version (mgr c))]"
  | (fetch) vb where "tasks c ! i = Refresh_lock vb" "\<not> lock (mgr c)" "token_version (mgr c) = vb" "lock tm'"
        "token_version tm' = token_version (mgr c)"
        "p' = Refresh_fetch" "evs = [Auth_get (tm_login (mgr c)) (tm_password_hash (mgr c))]"
  | (completed) "tasks c ! i = Refresh_fetch" "\<not> lock tm'" "token_version tm' = token_version (mgr c) + 1"
        "p' = Ret (Inr (BoolV True))" "evs = []"
    by blast
  then show ?thesis
  proof cases
    case wait
    have "lock (mgr c)" using I wait(2) unfolding lock_inv_def by blast
    then have "1 \<le> auth_calls (trace c)" using J2 by simp
    then show ?thesis
      using wait J2 J3 J4 ac by (intro goal) (auto simp: tr)
  next
    case enter
    then show ?thesis
      using J2 J3 J4 ac by (intro goal) (auto simp: tr)
  next
    case released
    have "1 \<le> auth_calls (trace c)"
      using J5 i released(1) by (metis waiting_or_finished.simps(1))
    then show ?thesis
      using released J2 J3 J4 ac by (intro goal) (auto simp: tr)
  next
    case skip
    have "vb = v0" using J1[OF i] skip(1) snap by simp
    then have "token_version (mgr c) = v0 + 1" using skip(3) J3 by simp
    then have "1 \<le> auth_calls (trace c)" using J2 by simp
    then show ?thesis
      using skip J2 J3 J4 ac by (intro goal) (auto simp: tr)
  next
    case fetch
    have "vb = v0" using J1[OF i] fetch(1) snap by simp
    then show ?thesis
      using fetch J2 J3 ac by (intro goal) (auto simp: tr)
  next
    case completed
    have "lock (mgr c)" using I i completed(1) unfolding lock_inv_def by (metis fetching.simps(2))
    then have "token_version (mgr c) = v0" "auth_calls (trace c) = 1"
      using J4 J2 by simp_all
    then show ?thesis
      using completed ac by (intro goal) (auto simp: tr)
  qed
qed


lemma exec_append:
  "exec (s @ t) c = (case exec s c of None \<Rightarrow> None | Some c1 \<Rightarrow> exec t c1)"
  by (induction s arbitrary: c) (auto split: option.splits)

lemma fire_trace: "fire l c = Some c' \<Longrightarrow> \<exists>tr. trace c' = trace c @ tr"
  by (cases l) (auto elim!: fire_SomeE)

lemma coalesced_exec:
  assumes "lock_inv c0" "coalesced v0 c0"
  shows "exec s c0 = Some c \<Longrightarrow> \<forall>l\<in>set s. \<exists>tok. snd l = Inr tok \<Longrightarrow>
     \<forall>j v. (j, Log_401 v) \<in> set (trace c) \<longrightarrow> v = v0 \<Longrightarrow> coalesced v0 c"
proof (induction s arbitrary: c rule: rev_induct)
  case Nil
  then show ?case using assms(2) by simp
next
  case (snoc l s)
  from snoc.prems(1) obtain c1 where e: "exec s c0 = Some c1" and f: "fire l c1 = Some c"
    by (auto simp: exec_append split: option.splits)
  obtain i tok where l: "l = (i, Inr tok)"
    using snoc.prems(2) by (cases l) auto
  from fire_trace[OF f] obtain tr where tr: "trace c = trace c1 @ tr" ..
  have "coalesced v0 c1"
    using snoc.IH[OF e] snoc.prems(2,3) tr by auto
  moreover have "lock_inv c1" using exec_inv[OF assms(1) e] .
  ultimately show ?case
    using coalesced_fire[of c1 v0 i tok c] f l snoc.prems(3) by blast
qed

lemma refresh_start:
  assumes "\<not> lock tm0" "refresh_event tm0" "\<forall>e\<in>set errs. is_401 e"
  shows "initial \<lparr>mgr = tm0, tasks = map Refresh_token_if_401 errs, trace = []\<rparr>"
    and "coalesced (token_version tm0) \<lparr>mgr = tm0, tasks = map Refresh_token_if_401 errs, trace = []\<rparr>"
  using assms by (auto simp: initial_def coalesced_def auth_calls_def list_all_iff)

lemma coalesced_final:
  assumes "lock_inv c" "coalesced v0 c" "list_all finished (tasks c)" "tasks c \<noteq> []"
  shows "auth_calls (trace c) = 1 \<and> (\<forall>p\<in>set (tasks c). p = Ret (Inr (BoolV True)))"
proof -
  have fin: "\<And>i. i < length (tasks c) \<Longrightarrow> finished (tasks c ! i)"
    using assms(3) by (simp add: list_all_length)
  then have "\<not> lock (mgr c)"
    using assms(1) finished_not_fetching unfolding lock_inv_def by blast
  moreover have "0 < length (tasks c)" using assms(4) by simp
  then have "\<exists>i<length (tasks c). waiting_or_finished (tasks c ! i)"
    using fin[of 0] by (cases "tasks c ! 0") auto
  ultimately have "auth_calls (trace c) = 1"
    using assms(2) unfolding coalesced_def by auto
  moreover have "p = Ret (Inr (BoolV True))" if "p \<in> set (tasks c)" for p
  proof -
    from that obtain i where i: "i < length (tasks c)" "tasks c ! i = p"
      by (auto simp: in_set_conv_nth)
    have "refresh_point (trace c) i p" using assms(2) i unfolding coalesced_def by blast
    moreover have "finished p" using fin i by auto
    ultimately show ?thesis by (cases p) auto
  qed
  ultimately show ?thesis by blast
qed

lemma refresh_runs:
  assumes "\<not> lock tm0" and "refresh_event tm0" and "\<forall>e\<in>set errs. is_401 e" and "errs \<noteq> []"
    and "exec s \<lparr>mgr = tm0, tasks = map Refresh_token_if_401 errs, trace = []\<rparr> = Some c"
  shows
   "(\<forall>i j. i < length (tasks c) \<and> j < length (tasks c) \<and>
           fetching (tasks c ! i) \<and> fetching (tasks c ! j) \<longrightarrow> i = j) \<and>
    length s \<le> 3 * length errs \<and>
    (\<not> list_all finished (tasks c) \<longrightarrow> (\<exists>i r. fire (i, r) c \<noteq> None)) \<and>
    ((\<forall>l\<in>set s. \<exists>tok. snd l = Inr tok) \<and>
     (\<forall>i v. (i, Log_401 v) \<in> set (trace c) \<longrightarrow> v = token_version tm0) \<and>
     list_all finished (tasks c)
     \<longrightarrow> auth_calls (trace c) = 1 \<and> (\<forall>p\<in>set (tasks c). p = Ret (Inr (BoolV True))))"
proof -
  let ?c0 = "\<lparr>mgr = tm0, tasks = map Refresh_token_if_401 errs, trace = []\<rparr>"
  have i0: "lock_inv ?c0" using refresh_start(1)[OF assms(1,2,3)] by (rule initial_inv)
  have ic: "lock_inv c" using exec_inv[OF i0 assms(5)] .
  have len: "length (tasks c) = length errs" using exec_length[OF assms(5)] by simp
  have 1: "\<forall>i j. i < length (tasks c) \<and> j < length (tasks c) \<and>
           fetching (tasks c ! i) \<and> fetching (tasks c ! j) \<longrightarrow> i = j"
    using ic unfolding lock_inv_def by blast
  have 2: "length s \<le> 3 * length errs"
    using exec_bound[OF assms(5)] by simp
  have 3: "\<not> list_all finished (tasks c) \<longrightarrow> (\<exists>i r. fire (i, r) c \<noteq> None)"
    using progress[OF ic] by (auto simp: list_all_length)
  have 4: "auth_calls (trace c) = 1 \<and> (\<forall>p\<in>set (tasks c). p = Ret (Inr (BoolV True)))"
    if "\<forall>l\<in>set s. \<exists>tok. snd l = Inr tok"
      "\<forall>i v. (i, Log_401 v) \<in> set (trace c) \<longrightarrow> v = token_version tm0"
      "list_all finished (tasks c)"
  proof -
    have "coalesced (token_version tm0) c"
      using coalesced_exec[OF i0 refresh_start(2)[OF assms(1,2,3)] assms(5) that(1,2)] .
    moreover have "tasks c \<noteq> []" using len assms(4) by auto
    ultimately show ?thesis using coalesced_final[OF ic _ that(3)] by blast
  qed
  show ?thesis using 1 2 3 4 by blast
qed

lemma one_fetch_in_flight:
  assumes "initial c0" "exec s0 c0 = Some c1"
  shows "\<forall>i j. i < length (tasks c1) \<and> j < length (tasks c1) \<and>
           fetching (tasks c1 ! i) \<and> fetching (tasks c1 ! j) \<longrightarrow> i = j"
  using exec_inv[OF initial_inv[OF assms(1)] assms(2)] unfolding lock_inv_def by blast

text \<open>
  Claim C1, as stated, fails when the authentication request fails: the task that
  fetches raises \<open>IikoServerAuthException\<close> instead of returning True. Two tasks hold a
  401 error; the first takes the lock and calls the endpoint, the second finds the
  event cleared and waits; the endpoint answers with a network error.
\<close>

theorem refresher_raises_when_fetch_fails:
  "exec [(0, Inr []), (0, Inr []), (1, Inr []), (0, Inl network_error), (1, Inr [])]
     two_refreshers
   = Some \<lparr>mgr = \<lparr>tm_api_client = 0, api_key = [], tm_login = ''user'',
                  tm_password_hash = ''a94a8fe5'', tm_key_id = ''example.iiko.it:user'',
                  token = None, token_version = 1, lock = False, refresh_event = True,
                  refresh_event_sets = 2\<rparr>,
           tasks = [Ret (Inl (IikoServerAuthException Fetch_failed network_error)),
                    Ret (Inr (BoolV True))],
           trace = [(0, Log_401 1), (0, Auth_get ''user'' ''a94a8fe5''), (1, Log_401 1),
                    (1, Log_waiting)]\<rparr>"
  by (simp add: example_defs fire_def tm_defs is_401_def)

text \<open>
  Claim C1, amended. In every configuration that any schedule of any tasks
  (\<open>ensure_token\<close>, \<open>refresh_token_if_401\<close>, \<open>logout\<close>) reaches from a manager on which
  nobody is fetching, at most one task awaits the authentication endpoint. Let now
  any number (at least one) of tasks call \<open>refresh_token_if_401\<close> with a 401 error on
  such a manager. Every schedule has at most three steps for each task; and as long
  as some task has not finished, some task can run. If moreover every
  authentication request was answered with a token, every task took the same version
  as its snapshot, and all tasks have finished, then the authentication endpoint was
  called exactly once and every task returned True.
\<close>

theorem refresh_coalescing:
  "(initial ci \<and> exec si ci = Some cj \<longrightarrow>
      (\<forall>i j. i < length (tasks cj) \<and> j < length (tasks cj) \<and>
             fetching (tasks cj ! i) \<and> fetching (tasks cj ! j) \<longrightarrow> i = j)) \<and>
   (\<not> lock start \<and> refresh_event start \<and> (\<forall>e\<in>set errs. is_401 e) \<and> errs \<noteq> [] \<and>
    exec s \<lparr>mgr = start, tasks = map Refresh_token_if_401 errs, trace = []\<rparr> = Some c \<longrightarrow>
      length s \<le> 3 * length errs \<and>
      (\<not> list_all finished (tasks c) \<longrightarrow> (\<exists>i r. fire (i, r) c \<noteq> None)) \<and>
      ((\<forall>l\<in>set s. \<exists>tok. snd l = Inr tok) \<and>
       (\<forall>i v. (i, Log_401 v) \<in> set (trace c) \<longrightarrow> v = token_version start) \<and>
       list_all finished (tasks c)
       \<longrightarrow> auth_calls (trace c) = 1 \<and> (\<forall>p\<in>set (tasks c). p = Ret (Inr (BoolV True)))))"
  using one_fetch_in_flight[of ci si cj] refresh_runs[of start errs s c]
  by blast

theorem refresh_coalescing_witness:
  "\<not> lock example_manager \<and> refresh_event example_manager \<and> is_401 error_401 \<and>
   exec [(0, Inr []), (0, Inr []), (1, Inr []), (0, Inr ''t2''), (1, Inr [])]
     \<lparr>mgr = example_manager, tasks = map Refresh_token_if_401 [error_401, error_401], trace = []\<rparr>
   = Some \<lparr>mgr = example_manager\<lparr>api_key := [(''iikoCookieAuth'', ''t2'')], token := Some ''t2'',
                                   token_version := 2, refresh_event_sets := 2\<rparr>,
           tasks = [Ret (Inr (BoolV True)), Ret (Inr (BoolV True))],
           trace = [(0, Log_401 1), (0, Auth_get ''user'' ''a94a8fe5''), (1, Log_401 1),
                    (1, Log_waiting)]\<rparr> \<and>
   auth_calls [(0, Log_401 1), (0, Auth_get ''user'' ''a94a8fe5''), (1, Log_401 1),
               (1, Log_waiting)] = 1"
proof -
  let ?s = "[(0, Inr []), (0, Inr []), (1, Inr []), (0, Inr ''t2''), (1, Inr [])] :: (nat \<times> reply) list"
  let ?c = "\<lparr>mgr = example_manager\<lparr>api_key := [(''iikoCookieAuth'', ''t2'')], token := Some ''t2'',
                                   token_version := 2, refresh_event_sets := 2\<rparr>,
           tasks = [Ret (Inr (BoolV True)), Ret (Inr (BoolV True))],
           trace = [(0, Log_401 1), (0, Auth_get ''user'' ''a94a8fe5''), (1, Log_401 1),
                    (1, Log_waiting)]\<rparr>"
  have a: "\<not> lock example_manager" and b: "refresh_event example_manager"
    by (simp_all add: example_manager_def)
  have c: "\<forall>e\<in>set [error_401, error_401]. is_401 e"
    by (simp add: error_401_def is_401_def)
  have d: "[error_401, error_401] \<noteq> []" by simp
  have e: "exec ?s \<lparr>mgr = example_manager, tasks = map Refresh_token_if_401 [error_401, error_401], trace = []\<rparr>
             = Some ?c"
    by (simp add: example_defs fire_def tm_defs is_401_def)
  have f: "(\<forall>l\<in>set ?s. \<exists>tok. snd l = Inr tok)" by simp
  have g: "\<forall>i v. (i, Log_401 v) \<in> set (trace ?c) \<longrightarrow> v = token_version example_manager"
    by (simp add: example_manager_def)
  have h: "list_all finished (tasks ?c)" by simp
  from refresh_coalescing[where start = example_manager and errs = "[error_401, error_401]"
                            and s = ?s and c = ?c] a b c d e f g h
  have "auth_calls (trace ?c) = 1" by blast
  then show ?thesis using a b c e by simp
qed

subsection \<open>Where the snapshot is taken\<close>

text \<open>
  Claim C2, as stated, fails: \<open>execute_with_retry\<close> captures no version, and
  \<open>refresh_token_if_401\<close> takes its snapshot when it is entered. Two tasks hold a
  401 error of an operation that has failed. The first runs its whole refresh, which
  completes with the token \<open>t2\<close> and version 2. The second enters after that: its
  snapshot is 2, the comparison under the lock finds nothing new, and it calls the
  authentication endpoint again.
\<close>

theorem late_caller_fetches_again:
  "exec [(0, Inr []), (0, Inr []), (0, Inr ''t2''), (1, Inr []), (1, Inr []), (1, Inr ''t3'')]
     two_refreshers
   = Some \<lparr>mgr = \<lparr>tm_api_client = 0, api_key = [(''iikoCookieAuth'', ''t3'')],
                  tm_login = ''user'', tm_password_hash = ''a94a8fe5'',
                  tm_key_id = ''example.iiko.it:user'', token = Some ''t3'',
                  token_version = 3, lock = False, refresh_event = True,
                  refresh_event_sets = 3\<rparr>,
           tasks = [Ret (Inr (BoolV True)), Ret (Inr (BoolV True))],
           trace = [(0, Log_401 1), (0, Auth_get ''user'' ''a94a8fe5''), (1, Log_401 2),
                    (1, Auth_get ''user'' ''a94a8fe5'')]\<rparr>"
  by (simp add: example_defs fire_def tm_defs is_401_def)

lemma two_lock_waiters:
  assumes "i < length (tasks c)" "j < length (tasks c)" "i \<noteq> j"
    "tasks c ! i = Refresh_lock v" "tasks c ! j = Refresh_lock v"
    "\<not> lock (mgr c)" "token_version (mgr c) = v"
  shows "\<exists>c'. exec [(i, r1), (i, Inr tok), (j, r2)] c = Some c' \<and>
           tasks c' ! i = Ret (Inr (BoolV True)) \<and> tasks c' ! j = Ret (Inr (BoolV True)) \<and>
           trace c' = trace c @ [(i, Auth_get (tm_login (mgr c)) (tm_password_hash (mgr c))),
                                 (j, Log_already_refreshed v (v + 1))] \<and>
           token (mgr c') = Some tok \<and> token_version (mgr c') = v + 1"
  using assms by (simp add: fire_def tm_defs nth_list_update)

text \<open>
  Claim C2, amended. \<open>refresh_token_if_401\<close> takes the snapshot of the version counter
  itself, when it is entered (\<open>execute_with_retry\<close> passes only the error). Once it
  holds the lock it skips the fetch and returns True exactly when the counter differs
  from that snapshot, and calls the authentication endpoint when it does not. So of
  two callers that both entered before either took the lock, the second to take it,
  after the first's refresh has completed, makes no call of its own.
\<close>

theorem snapshot_taken_at_entry:
  "(is_401 err \<and> refresh_event tm \<longrightarrow>
      pc_step r (Refresh_token_if_401 err) tm
        = Some (Refresh_lock (token_version tm), tm, [Log_401 (token_version tm)])) \<and>
   (\<not> lock tm \<and> token_version tm \<noteq> vb \<longrightarrow>
      pc_step r (Refresh_lock vb) tm
        = Some (Ret (Inr (BoolV True)), tm, [Log_already_refreshed vb (token_version tm)])) \<and>
   (\<not> lock tm \<and> token_version tm = vb \<longrightarrow>
      (\<exists>tm'. pc_step r (Refresh_lock vb) tm
        = Some (Refresh_fetch, tm', [Auth_get (tm_login tm) (tm_password_hash tm)]))) \<and>
   (i < length (tasks c) \<and> j < length (tasks c) \<and> i \<noteq> j \<and>
    tasks c ! i = Refresh_lock v \<and> tasks c ! j = Refresh_lock v \<and>
    \<not> lock (mgr c) \<and> token_version (mgr c) = v \<longrightarrow>
      (\<exists>c'. exec [(i, r1), (i, Inr tok), (j, r2)] c = Some c' \<and>
           tasks c' ! i = Ret (Inr (BoolV True)) \<and> tasks c' ! j = Ret (Inr (BoolV True)) \<and>
           trace c' = trace c @ [(i, Auth_get (tm_login (mgr c)) (tm_password_hash (mgr c))),
                                 (j, Log_already_refreshed v (v + 1))] \<and>
           token (mgr c') = Some tok \<and> token_version (mgr c') = v + 1))"
proof -
  have a: "is_401 err \<and> refresh_event tm \<longrightarrow>
      pc_step r (Refresh_token_if_401 err) tm
        = Some (Refresh_lock (token_version tm), tm, [Log_401 (token_version tm)])"
    by (simp add: Let_def)
  have b: "\<not> lock tm \<and> token_version tm \<noteq> vb \<longrightarrow>
      pc_step r (Refresh_lock vb) tm
        = Some (Ret (Inr (BoolV True)), tm, [Log_already_refreshed vb (token_version tm)])"
    by simp
  have c: "\<not> lock tm \<and> token_version tm = vb \<longrightarrow>
      (\<exists>tm'. pc_step r (Refresh_lock vb) tm
        = Some (Refresh_fetch, tm', [Auth_get (tm_login tm) (tm_password_hash tm)]))"
    by (simp add: tm_defs)
  show ?thesis
    using a b c two_lock_waiters[of i c j v r1 tok r2] by blast
qed

theorem snapshot_taken_at_entry_witness:
  "is_401 error_401 \<and> refresh_event example_manager \<and> \<not> lock example_manager \<and>
   pc_step (Inr []) (Refresh_token_if_401 error_401) example_manager
     = Some (Refresh_lock 1, example_manager, [Log_401 1]) \<and>
   pc_step (Inr []) (Refresh_lock 0) example_manager
     = Some (Ret (Inr (BoolV True)), example_manager, [Log_already_refreshed 0 1])"
proof -
  have a: "is_401 error_401 \<and> refresh_event example_manager \<and> \<not> lock example_manager
           \<and> token_version example_manager = 1"
    by (simp add: example_defs is_401_def)
  then show ?thesis
    using snapshot_taken_at_entry
      [where err = error_401 and tm = example_manager and r = "Inr []" and vb = 0]
    by simp
qed

subsection \<open>A task that waited for a refresh that failed\<close>

text \<open>
  Claim C4 on the code. Two tasks hold a 401 error; the version is 1. The first takes
  the lock and calls the authentication endpoint, the second finds the event cleared
  and waits. The endpoint rejects the credentials. The first task clears the token and
  sets the event, and the second, released, returns True: the manager then holds no
  token and its version is still 1, the version at which the second task began to wait.
\<close>

theorem waiter_returns_true_after_failed_refresh:
  "exec [(0, Inr []), (0, Inr []), (1, Inr []), (0, Inl error_401), (1, Inr [])] two_refreshers
   = Some \<lparr>mgr = \<lparr>tm_api_client = 0, api_key = [], tm_login = ''user'',
                  tm_password_hash = ''a94a8fe5'', tm_key_id = ''example.iiko.it:user'',
                  token = None, token_version = 1, lock = False, refresh_event = True,
                  refresh_event_sets = 2\<rparr>,
           tasks = [Ret (Inl (IikoServerAuthException Invalid_credentials error_401)),
                    Ret (Inr (BoolV True))],
           trace = [(0, Log_401 1), (0, Auth_get ''user'' ''a94a8fe5''), (1, Log_401 1),
                    (1, Log_waiting)]\<rparr>"
  by (simp add: example_defs fire_def tm_defs is_401_def)

section \<open>Theorems: registries and the facade\<close>

lemmas world_example_defs = example_world_def example_credentials_def example_manager_def

subsection \<open>Lookup of an existing instance\<close>

text \<open>
  Claim C10. When an instance is registered under the key, \<open>get_instance\<close> of either
  registry returns that instance whatever the other arguments are (login, password,
  client): the stores of token managers and of facades are unchanged, and so are the
  stored login, password hash, token, version and transport of the instance. Only the
  class-level lock object is made sure to exist.
\<close>

theorem get_instance_cache_hit:
  "(map_of (tm_instances w) kid = Some a \<longrightarrow>
      TokenManager_get_instance sha1_hexdigest client client_key lg pw kid w = (a, w\<lparr>tm_global_lock := True\<rparr>)
      \<and> token_managers (snd (TokenManager_get_instance sha1_hexdigest client client_key lg pw kid w))
          = token_managers w) \<and>
   (map_of (fc_instances w) (key_id creds) = Some f \<longrightarrow>
      get_instance creds w = (f, w\<lparr>fc_lock := True\<rparr>)
      \<and> facades (snd (get_instance creds w)) = facades w
      \<and> token_managers (snd (get_instance creds w)) = token_managers w)"
  by (simp add: TokenManager_get_instance_def get_instance_def Let_def)

theorem get_instance_cache_hit_witness:
  "map_of (tm_instances example_world) ''example.iiko.it:user'' = Some 0 \<and>
   TokenManager_get_instance id 7 [(''iikoCookieAuth'', ''k7'')] ''other'' ''changed''
     ''example.iiko.it:user'' example_world
     = (0, example_world) \<and>
   map_of (fc_instances example_world)
     (key_id \<lparr>host = ''example.iiko.it'', login = ''user'', password = ''changed''\<rparr>) = Some 0 \<and>
   get_instance \<lparr>host = ''example.iiko.it'', login = ''user'', password = ''changed''\<rparr> example_world
     = (0, example_world)"
proof -
  have a: "map_of (tm_instances example_world) ''example.iiko.it:user'' = Some 0"
    by (simp add: example_world_def)
  have b: "map_of (fc_instances example_world)
     (key_id \<lparr>host = ''example.iiko.it'', login = ''user'', password = ''changed''\<rparr>) = Some 0"
    by (simp add: example_world_def key_id_def)
  have c: "example_world\<lparr>tm_global_lock := True\<rparr> = example_world"
    "example_world\<lparr>fc_lock := True\<rparr> = example_world"
    by (simp_all add: example_world_def)
  show ?thesis
    using get_instance_cache_hit
      [where w = example_world and kid = "''example.iiko.it:user''" and a = 0 and f = 0
         and creds = "\<lparr>host = ''example.iiko.it'', login = ''user'', password = ''changed''\<rparr>"
         and sha1_hexdigest = id and client = 7 and lg = "''other''" and pw = "''changed''"
         and client_key = "[(''iikoCookieAuth'', ''k7'')]"]
      a b c
    by simp
qed

subsection \<open>Global teardown\<close>

lemma logout_alone:
  "await_alone r Logout tm =
     Some (Inr NoneV,
           (case token tm of None \<Rightarrow> tm | Some t \<Rightarrow> tm\<lparr>token := None, api_key := []\<rparr>),
           (case token tm of None \<Rightarrow> [] | Some t \<Rightarrow> [Logout_get t]))"
  by (simp add: await_alone_def numeral_3_eq_3 split: option.splits)

lemma await_logout:
  "\<exists>tm' evs. await_in_world r Logout a w
      = Some (Inr NoneV, w\<lparr>token_managers := (token_managers w)[a := tm'],
                           history := history w @ evs\<rparr>)
    \<and> token tm' = None \<and> token_version tm' = token_version (token_managers w ! a)
    \<and> list_all is_Logout_get evs
    \<and> (\<forall>tok. token (token_managers w ! a) = Some tok \<longrightarrow> Logout_get tok \<in> set evs)"
proof (cases "token (token_managers w ! a)")
  case None
  then show ?thesis
    by (intro exI[of _ "token_managers w ! a"] exI[of _ "[]"])
       (simp add: await_in_world_def logout_alone)
next
  case (Some t)
  then show ?thesis
    by (intro exI[of _ "(token_managers w ! a)\<lparr>token := None, api_key := []\<rparr>"]
              exI[of _ "[Logout_get t]"])
       (simp add: await_in_world_def logout_alone)
qed

lemma logout_each_effect:
  "list_all (\<lambda>ka. snd ka < length (token_managers w)) xs \<Longrightarrow>
   \<exists>tms louts. logout_each replies xs w
       = Some (Inr (), w\<lparr>token_managers := tms, history := history w @ louts\<rparr>)
     \<and> length tms = length (token_managers w)
     \<and> list_all is_Logout_get louts
     \<and> (\<forall>a < length tms. token_version (tms ! a) = token_version (token_managers w ! a)
                        \<and> (token (tms ! a) = None \<or> token (tms ! a) = token (token_managers w ! a)))
     \<and> (\<forall>ka \<in> set xs. token (tms ! snd ka) = None)
     \<and> (\<forall>ka \<in> set xs. \<forall>tok. token (token_managers w ! snd ka) = Some tok
                        \<longrightarrow> Logout_get tok \<in> set louts)"
proof (induction xs arbitrary: w)
  case Nil
  have "logout_each replies [] w = Some (Inr (), w\<lparr>token_managers := token_managers w, history := history w @ []\<rparr>)"
    by simp
  then show ?case by (intro exI[of _ "token_managers w"] exI[of _ "[]"]) simp
next
  case (Cons x xs)
  obtain k a where x: "x = (k, a)" by (cases x)
  have a: "a < length (token_managers w)" using Cons.prems x by simp
  obtain tm' evs where
    aw: "await_in_world (replies k) Logout a w
      = Some (Inr NoneV, w\<lparr>token_managers := (token_managers w)[a := tm'],
                           history := history w @ evs\<rparr>)"
    and t': "token tm' = None" "token_version tm' = token_version (token_managers w ! a)"
    and ev: "list_all is_Logout_get evs"
    and lo: "\<And>tok. token (token_managers w ! a) = Some tok \<Longrightarrow> Logout_get tok \<in> set evs"
    using await_logout[of "replies k" a w] by blast
  let ?w1 = "w\<lparr>token_managers := (token_managers w)[a := tm'], history := history w @ evs\<rparr>"
  have "list_all (\<lambda>ka. snd ka < length (token_managers ?w1)) xs"
    using Cons.prems by simp
  from Cons.IH[OF this] obtain tms louts where
    le: "logout_each replies xs ?w1
       = Some (Inr (), ?w1\<lparr>token_managers := tms, history := history ?w1 @ louts\<rparr>)"
    and len: "length tms = length (token_managers ?w1)"
    and lg: "list_all is_Logout_get louts"
    and keep: "\<And>b. b < length tms \<Longrightarrow> token_version (tms ! b) = token_version (token_managers ?w1 ! b)
                        \<and> (token (tms ! b) = None \<or> token (tms ! b) = token (token_managers ?w1 ! b))"
    and out: "\<And>kb. kb \<in> set xs \<Longrightarrow> token (tms ! snd kb) = None"
    and sent: "\<And>kb tok. kb \<in> set xs \<Longrightarrow> token (token_managers ?w1 ! snd kb) = Some tok
                        \<Longrightarrow> Logout_get tok \<in> set louts"
    by blast
  have nth1: "\<And>b. b < length (token_managers w) \<Longrightarrow>
      token_managers ?w1 ! b = (if b = a then tm' else token_managers w ! b)"
    by (simp add: nth_list_update)
  have 1: "logout_each replies (x # xs) w
       = Some (Inr (), w\<lparr>token_managers := tms, history := history w @ (evs @ louts)\<rparr>)"
    using aw le by (simp add: x)
  have 2: "length tms = length (token_managers w)" using len by simp
  have 3: "list_all is_Logout_get (evs @ louts)" using ev lg by simp
  have 4: "\<forall>b < length tms. token_version (tms ! b) = token_version (token_managers w ! b)
                        \<and> (token (tms ! b) = None \<or> token (tms ! b) = token (token_managers w ! b))"
    using keep nth1 t' 2 by (metis)
  have 5: "\<forall>kb \<in> set (x # xs). token (tms ! snd kb) = None"
  proof
    fix kb assume "kb \<in> set (x # xs)"
    then consider "kb = x" | "kb \<in> set xs" by auto
    then show "token (tms ! snd kb) = None"
    proof cases
      case 1
      then show ?thesis using keep[of a] nth1[OF a] t'(1) a 2 x by auto
    next
      case 2
      then show ?thesis using out by blast
    qed
  qed
  have 6: "\<forall>kb \<in> set (x # xs). \<forall>tok. token (token_managers w ! snd kb) = Some tok
                        \<longrightarrow> Logout_get tok \<in> set (evs @ louts)"
  proof (intro ballI allI impI)
    fix kb tok assume kb: "kb \<in> set (x # xs)" and tk: "token (token_managers w ! snd kb) = Some tok"
    show "Logout_get tok \<in> set (evs @ louts)"
    proof (cases "snd kb = a")
      case True
      then show ?thesis using lo tk by simp
    next
      case False
      then have in_xs: "kb \<in> set xs" using kb x by auto
      have "snd kb < length (token_managers w)"
        using Cons.prems in_xs by (auto simp: list_all_iff)
      then have "token (token_managers ?w1 ! snd kb) = Some tok"
        using nth1 False tk by simp
      from sent[OF in_xs this] show ?thesis by simp
    qed
  qed
  show ?case
    using 1 2 3 4 5 6 by blast
qed

lemma close_each_effect:
  "\<exists>n. n \<le> length xs \<and>
     snd (close_each closes xs w)
       = w\<lparr>history := history w @ map (\<lambda>kf. Api_client_close (fc_api_client (facades w ! snd kf))) (take n xs)\<rparr>
     \<and> (fst (close_each closes xs w) = Inr () \<longrightarrow> n = length xs)
     \<and> (\<forall>e. fst (close_each closes xs w) \<noteq> Inl e) = (\<forall>kf \<in> set xs. closes (fc_api_client (facades w ! snd kf)) = None)"
proof (induction xs arbitrary: w)
  case Nil
  then show ?case by simp
next
  case (Cons x xs)
  obtain k f where x: "x = (k, f)" by (cases x)
  let ?client = "fc_api_client (facades w ! f)"
  let ?w' = "w\<lparr>history := history w @ [Api_client_close ?client]\<rparr>"
  show ?case
  proof (cases "closes ?client")
    case None
    from Cons.IH[of ?w'] obtain n where
      n: "n \<le> length xs"
      "snd (close_each closes xs ?w')
        = ?w'\<lparr>history := history ?w' @ map (\<lambda>kf. Api_client_close (fc_api_client (facades ?w' ! snd kf))) (take n xs)\<rparr>"
      "fst (close_each closes xs ?w') = Inr () \<longrightarrow> n = length xs"
      "(\<forall>e. fst (close_each closes xs ?w') \<noteq> Inl e) = (\<forall>kf \<in> set xs. closes (fc_api_client (facades ?w' ! snd kf)) = None)"
      by blast
    have ce: "close_each closes (x # xs) w = close_each closes xs ?w'"
      using None by (simp add: x Let_def)
    show ?thesis
      using n None unfolding ce
      by (intro exI[of _ "Suc n"]) (simp add: x)
  next
    case (Some e)
    have ce: "close_each closes (x # xs) w = (Inl e, ?w')"
      using Some by (simp add: x Let_def)
    show ?thesis
      using Some unfolding ce
      by (intro exI[of _ "Suc 0"]) (auto simp: x)
  qed
qed


lemma fresh_token_manager:
  assumes "tm_instances w' = []" "length (token_managers w') = n"
  shows "fst (TokenManager_get_instance sha1_hexdigest client client_key lg pw kid w') = n \<and>
         token_managers (snd (TokenManager_get_instance sha1_hexdigest client client_key lg pw kid w')) ! n
           = TokenManager_init sha1_hexdigest client client_key lg pw kid \<and>
         token (token_managers (snd (TokenManager_get_instance sha1_hexdigest client client_key lg pw kid w')) ! n) = None \<and>
         token_version (token_managers (snd (TokenManager_get_instance sha1_hexdigest client client_key lg pw kid w')) ! n) = 0"
  using assms by (auto simp: TokenManager_get_instance_def Let_def TokenManager_init_def nth_append)

text \<open>
  Claim C7. From a world in which the registry of token managers refers to stored
  objects, \<open>close_all\<close> of the facade registry returns. What it has done to the outside is, in this order: logout requests
  only, one for every registered token manager that held a token, and then the
  closing of the transports of the registered facades; so every logout precedes every
  close. Afterwards every token manager that was registered holds no token and the
  registry of token managers is empty. If no \<open>close()\<close> raises, the teardown completes:
  every transport has been closed, the registry of facades is empty too, and the next
  \<open>TokenManager.get_instance\<close>, for any key, returns an object that was not in the
  registry before, with no token and version 0.
\<close>

theorem close_all_teardown:
  assumes "list_all (\<lambda>ka. snd ka < length (token_managers w)) (tm_instances w)"
  shows "\<exists>res w' louts n.
      close_all replies closes w = Some (res, w')
    \<and> history w' = history w @ louts
         @ map (\<lambda>kf. Api_client_close (fc_api_client (facades w ! snd kf))) (take n (fc_instances w))
    \<and> list_all is_Logout_get louts
    \<and> (\<forall>ka \<in> set (tm_instances w). \<forall>tok. token (token_managers w ! snd ka) = Some tok
          \<longrightarrow> Logout_get tok \<in> set louts)
    \<and> (\<forall>ka \<in> set (tm_instances w). token (token_managers w' ! snd ka) = None)
    \<and> tm_instances w' = []
    \<and> ((\<forall>kf \<in> set (fc_instances w). closes (fc_api_client (facades w ! snd kf)) = None)
          \<longrightarrow> res = Inr ())
    \<and> (res = Inr () \<longrightarrow>
          n = length (fc_instances w) \<and> fc_instances w' = [] \<and>
          (\<forall>sha1_hexdigest client client_key lg pw kid.
             fst (TokenManager_get_instance sha1_hexdigest client client_key lg pw kid w') = length (token_managers w) \<and>
             (\<forall>ka \<in> set (tm_instances w).
                snd ka \<noteq> fst (TokenManager_get_instance sha1_hexdigest client client_key lg pw kid w')) \<and>
             token (token_managers (snd (TokenManager_get_instance sha1_hexdigest client client_key lg pw kid w'))
                      ! length (token_managers w)) = None \<and>
             token_version (token_managers (snd (TokenManager_get_instance sha1_hexdigest client client_key lg pw kid w'))
                      ! length (token_managers w)) = 0))"
proof -
  note wf1 = assms
  from logout_each_effect[OF wf1, of replies] obtain tms louts where
    le: "logout_each replies (tm_instances w) w
       = Some (Inr (), w\<lparr>token_managers := tms, history := history w @ louts\<rparr>)"
    and len: "length tms = length (token_managers w)"
    and lg: "list_all is_Logout_get louts"
    and out: "\<forall>ka \<in> set (tm_instances w). token (tms ! snd ka) = None"
    and sent: "\<forall>ka \<in> set (tm_instances w). \<forall>tok. token (token_managers w ! snd ka) = Some tok
                        \<longrightarrow> Logout_get tok \<in> set louts"
    by blast
  let ?w1 = "w\<lparr>token_managers := tms, history := history w @ louts,
               tm_instances := [], tm_global_lock := False\<rparr>"
  have tc: "TokenManager_close_all replies w = Some (Inr (), ?w1)"
    using le by (simp add: TokenManager_close_all_def)
  have "\<exists>n. n \<le> length (fc_instances w)
    \<and> snd (close_each closes (fc_instances w) ?w1)
       = ?w1\<lparr>history := history ?w1 @ map (\<lambda>kf. Api_client_close (fc_api_client (facades w ! snd kf))) (take n (fc_instances w))\<rparr>
    \<and> (fst (close_each closes (fc_instances w) ?w1) = Inr () \<longrightarrow> n = length (fc_instances w))
    \<and> (\<forall>e. fst (close_each closes (fc_instances w) ?w1) \<noteq> Inl e)
           = (\<forall>kf \<in> set (fc_instances w). closes (fc_api_client (facades w ! snd kf)) = None)"
    using close_each_effect[of "fc_instances w" closes ?w1] by simp
  then obtain n where
    n: "n \<le> length (fc_instances w)"
    and ce: "snd (close_each closes (fc_instances w) ?w1)
       = ?w1\<lparr>history := history ?w1 @ map (\<lambda>kf. Api_client_close (fc_api_client (facades w ! snd kf))) (take n (fc_instances w))\<rparr>"
    and full: "fst (close_each closes (fc_instances w) ?w1) = Inr () \<longrightarrow> n = length (fc_instances w)"
    and ok: "(\<forall>e. fst (close_each closes (fc_instances w) ?w1) \<noteq> Inl e)
           = (\<forall>kf \<in> set (fc_instances w). closes (fc_api_client (facades w ! snd kf)) = None)"
    by blast
  obtain r2 w2 where c2: "close_each closes (fc_instances w) ?w1 = (r2, w2)"
    by (cases "close_each closes (fc_instances w) ?w1")
  have w2: "w2 = ?w1\<lparr>history := history ?w1 @ map (\<lambda>kf. Api_client_close (fc_api_client (facades w ! snd kf))) (take n (fc_instances w))\<rparr>"
    using ce c2 by simp
  have full2: "r2 = Inr () \<longrightarrow> n = length (fc_instances w)"
    using full c2 by simp
  have ok2: "(\<forall>e. r2 \<noteq> Inl e)
           = (\<forall>kf \<in> set (fc_instances w). closes (fc_api_client (facades w ! snd kf)) = None)"
    using ok c2 by simp
  have fresh: "\<And>w' sha1_hexdigest client client_key lg pw kid.
      tm_instances w' = [] \<Longrightarrow> token_managers w' = tms \<Longrightarrow>
      fst (TokenManager_get_instance sha1_hexdigest client client_key lg pw kid w') = length (token_managers w) \<and>
      (\<forall>ka \<in> set (tm_instances w).
          snd ka \<noteq> fst (TokenManager_get_instance sha1_hexdigest client client_key lg pw kid w')) \<and>
      token (token_managers (snd (TokenManager_get_instance sha1_hexdigest client client_key lg pw kid w'))
                      ! length (token_managers w)) = None \<and>
      token_version (token_managers (snd (TokenManager_get_instance sha1_hexdigest client client_key lg pw kid w'))
                      ! length (token_managers w)) = 0"
  proof -
    fix w' :: world and sha1_hexdigest client client_key lg pw kid
    assume e: "tm_instances w' = []" and t: "token_managers w' = tms"
    have l: "length (token_managers w') = length (token_managers w)" using t len by simp
    have "\<forall>ka \<in> set (tm_instances w). snd ka \<noteq> length (token_managers w)"
      using wf1 by (auto simp: list_all_iff)
    then show "fst (TokenManager_get_instance sha1_hexdigest client client_key lg pw kid w') = length (token_managers w) \<and>
      (\<forall>ka \<in> set (tm_instances w).
          snd ka \<noteq> fst (TokenManager_get_instance sha1_hexdigest client client_key lg pw kid w')) \<and>
      token (token_managers (snd (TokenManager_get_instance sha1_hexdigest client client_key lg pw kid w'))
                      ! length (token_managers w)) = None \<and>
      token_version (token_managers (snd (TokenManager_get_instance sha1_hexdigest client client_key lg pw kid w'))
                      ! length (token_managers w)) = 0"
      using fresh_token_manager[OF e l, of sha1_hexdigest client client_key lg pw kid]
      by (simp add: TokenManager_init_def)
  qed
  have old: "\<forall>ka \<in> set (tm_instances w). snd ka \<noteq> length (token_managers w)"
    using wf1 by (auto simp: list_all_iff)
  show ?thesis
  proof (cases r2)
    case (Inl e)
    have ca: "close_all replies closes w = Some (Inl e, w2)"
      using tc c2 Inl by (simp add: close_all_def)
    have notok: "\<not> (\<forall>kf \<in> set (fc_instances w). closes (fc_api_client (facades w ! snd kf)) = None)"
      using ok2 Inl by auto
    show ?thesis
      apply (intro exI[of _ "Inl e"] exI[of _ w2] exI[of _ louts] exI[of _ n])
      using ca lg sent out notok unfolding w2 by simp
  next
    case (Inr u)
    let ?w3 = "w2\<lparr>fc_instances := [], fc_lock := False\<rparr>"
    have ca: "close_all replies closes w = Some (Inr (), ?w3)"
      using tc c2 Inr by (simp add: close_all_def)
    have nl: "n = length (fc_instances w)" using full2 Inr by simp
    have f3: "tm_instances ?w3 = []" "token_managers ?w3 = tms"
      unfolding w2 by simp_all
    show ?thesis
      apply (intro exI[of _ "Inr ()"] exI[of _ ?w3] exI[of _ louts] exI[of _ n])
      using ca lg sent out nl fresh[OF f3] old unfolding w2 by simp
  qed
qed

theorem close_all_teardown_witness:
  "list_all (\<lambda>ka. snd ka < length (token_managers example_world)) (tm_instances example_world) \<and>
   close_all logout_ok close_ok example_world
     = Some (Inr (),
             example_world
               \<lparr>token_managers := [example_manager\<lparr>api_key := [], token := None\<rparr>],
                tm_instances := [], tm_global_lock := False,
                fc_instances := [], fc_lock := False,
                history := [Auth_get ''user'' ''a94a8fe5'', Logout_get ''t1'',
                            Api_client_close 0]\<rparr>)"
proof -
  have a: "list_all (\<lambda>ka. snd ka < length (token_managers example_world))
              (tm_instances example_world)"
    by (simp add: example_world_def)
  have e: "close_all logout_ok close_ok example_world
     = Some (Inr (),
             example_world
               \<lparr>token_managers := [example_manager\<lparr>api_key := [], token := None\<rparr>],
                tm_instances := [], tm_global_lock := False,
                fc_instances := [], fc_lock := False,
                history := [Auth_get ''user'' ''a94a8fe5'', Logout_get ''t1'',
                            Api_client_close 0]\<rparr>)"
    by code_simp
  from close_all_teardown[OF a, of logout_ok close_ok] obtain res w' where
    "close_all logout_ok close_ok example_world = Some (res, w')" "tm_instances w' = []"
    by blast
  then show ?thesis using a e by blast
qed

subsection \<open>The retry wrapper\<close>












end
